theory Spec2Isabelle
  imports Main "HOL-Library.List_Lexorder"
begin

section \<open>FluxFeed stress-test seeder: scripts/stress-test.py\<close>

text \<open>
  The script bootstraps a SQLite store by replaying the migration files of a directory,
  recording each in the \<^verbatim>\<open>_sqlx_migrations\<close> table, and then fills the store with
  synthetic tags, feeds and articles. Exceptions of the Python code are values of
  \<open>error\<close>; the store is passed explicitly; library calls whose code is not part of
  the script (the SHA-384 digest, the effect of a migration script on the store, the clock,
  the random generator) are parameters.
\<close>

datatype error =
    UnicodeDecodeError    \<comment> \<open>\<^verbatim>\<open>read_text\<close> on bytes that are not text in the default encoding\<close>
  | ValueError            \<comment> \<open>\<^verbatim>\<open>raise ValueError("Invalid migration filename ...")\<close>\<close>
  | OperationalError      \<comment> \<open>the store rejects a statement\<close>
  | IntegrityError        \<comment> \<open>a uniqueness constraint of the store is violated\<close>
  | OverflowError         \<comment> \<open>a Python int that does not fit SQLite's 64-bit INTEGER\<close>
  | IndexError            \<comment> \<open>\<^verbatim>\<open>random.choice\<close> of an empty sequence\<close>
  | OtherError string     \<comment> \<open>an exception of any other class, by the name of the class\<close>

subsection \<open>Text helpers\<close>

definition byte :: "char \<Rightarrow> nat" where
  "byte c = of_char c"

definition LF :: char where "LF = CHR 0x0A"
definition CR :: char where "CR = CHR 0x0D"

text \<open>
  A file name is a Python \<^verbatim>\<open>str\<close>: the list of its code points. \<open>str\<close> gives the
  code points of an ASCII literal.
\<close>

type_synonym ustr = "nat list"

definition str :: "string \<Rightarrow> ustr" where
  "str s = map of_char s"

text \<open>
  The decimal digits of Unicode (general category Nd), which are what \<^verbatim>\<open>\d\<close> matches
  in a \<^verbatim>\<open>str\<close> pattern and what \<^verbatim>\<open>int\<close> accepts. They come in runs of ten
  consecutive code points with the values 0 to 9; \<open>digit_zeros\<close> lists the first code
  point of each run (Unicode 14.0, the database of CPython 3.11).
\<close>

definition digit_zeros :: "nat list" where
  "digit_zeros = [48, 1632, 1776, 1984, 2406, 2534, 2662, 2790, 2918, 3046, 3174, 3302, 3430,
     3558, 3664, 3792, 3872, 4160, 4240, 6112, 6160, 6470, 6608, 6784, 6800, 6992, 7088, 7232,
     7248, 42528, 43216, 43264, 43472, 43504, 43600, 44016, 65296, 66720, 68912, 69734, 69872,
     69942, 70096, 70384, 70736, 70864, 71248, 71360, 71472, 71904, 72016, 72784, 73040, 73120,
     92768, 92864, 93008, 120782, 120792, 120802, 120812, 120822, 123200, 123632, 125264,
     130032]"

definition digit_value :: "nat \<Rightarrow> nat option" where
  "digit_value c =
     (case find (\<lambda>z. z \<le> c \<and> c < z + 10) digit_zeros of
        None \<Rightarrow> None
      | Some z \<Rightarrow> Some (c - z))"

definition is_digit :: "nat \<Rightarrow> bool" where
  "is_digit c = (digit_value c \<noteq> None)"

definition digit_val :: "nat \<Rightarrow> nat" where
  "digit_val c = (case digit_value c of None \<Rightarrow> 0 | Some d \<Rightarrow> d)"

text \<open>\<^verbatim>\<open>int(s)\<close> on a string of decimal digits (leading zeros allowed). The call
  raises \<^verbatim>\<open>ValueError\<close> on more than \<open>max_str_digits\<close> digits
  (\<^verbatim>\<open>sys.int_max_str_digits\<close>, 4300 by default).\<close>

definition int_of_digits :: "ustr \<Rightarrow> int" where
  "int_of_digits ds = int (foldl (\<lambda>acc c. 10 * acc + digit_val c) 0 ds)"

definition max_str_digits :: nat where
  "max_str_digits = 4300"

text \<open>\<^verbatim>\<open>s.replace(a, b)\<close> for single characters.\<close>

definition replace_char :: "nat \<Rightarrow> nat \<Rightarrow> ustr \<Rightarrow> ustr" where
  "replace_char a b s = map (\<lambda>c. if c = a then b else c) s"

subsection \<open>Reading a migration file\<close>

text \<open>
  \<^verbatim>\<open>migration_file.read_text()\<close> opens the file in text mode with the default encoding,
  taken here to be UTF-8: bytes that are not well-formed UTF-8 raise
  \<^verbatim>\<open>UnicodeDecodeError\<close>, and universal-newline translation turns every
  \<^verbatim>\<open>\r\n\<close> and every lone \<^verbatim>\<open>\r\<close> into \<^verbatim>\<open>\n\<close>. A Python \<^verbatim>\<open>str\<close> is
  represented by its UTF-8 encoding, so that \<^verbatim>\<open>sql.encode()\<close> is the identity on the
  representation.
\<close>

definition cont :: "char \<Rightarrow> bool" where
  "cont c = (128 \<le> byte c \<and> byte c \<le> 191)"

fun utf8_ok :: "string \<Rightarrow> bool" where
  "utf8_ok [] = True"
| "utf8_ok (a # bs) =
     (if byte a < 128 then utf8_ok bs
      else if 194 \<le> byte a \<and> byte a \<le> 223 then
        (case bs of b # r \<Rightarrow> cont b \<and> utf8_ok r | _ \<Rightarrow> False)
      else if 224 \<le> byte a \<and> byte a \<le> 239 then
        (case bs of b # c # r \<Rightarrow>
            cont b \<and> cont c
            \<and> (byte a = 224 \<longrightarrow> 160 \<le> byte b)
            \<and> (byte a = 237 \<longrightarrow> byte b \<le> 159)
            \<and> utf8_ok r
         | _ \<Rightarrow> False)
      else if 240 \<le> byte a \<and> byte a \<le> 244 then
        (case bs of b # c # d # r \<Rightarrow>
            cont b \<and> cont c \<and> cont d
            \<and> (byte a = 240 \<longrightarrow> 144 \<le> byte b)
            \<and> (byte a = 244 \<longrightarrow> byte b \<le> 143)
            \<and> utf8_ok r
         | _ \<Rightarrow> False)
      else False)"

fun universal_newlines :: "string \<Rightarrow> string" where
  "universal_newlines [] = []"
| "universal_newlines (c # cs) =
     (if c = CR then
        (case cs of
           d # ds \<Rightarrow> if d = LF then LF # universal_newlines ds else LF # universal_newlines cs
         | [] \<Rightarrow> [LF])
      else c # universal_newlines cs)"

definition read_text :: "string \<Rightarrow> error + string" where
  "read_text bytes = (if utf8_ok bytes then Inr (universal_newlines bytes) else Inl UnicodeDecodeError)"

definition encode :: "string \<Rightarrow> string" where
  "encode s = s"

subsection \<open>The filename pattern\<close>

text \<open>
  \<^verbatim>\<open>re.match(r"(\d+)_(.+)\.sql", name)\<close>: anchored at the start only. The greedy
  \<^verbatim>\<open>\d+\<close> takes the longest run of digits, which must be followed by \<^verbatim>\<open>_\<close>
  (a shorter run would be followed by a digit). \<^verbatim>\<open>.+\<close> matches characters other than
  the newline, as many as possible such that \<^verbatim>\<open>.sql\<close> follows: the text up to the
  last \<^verbatim>\<open>.sql\<close> that starts at offset 1 or later within the first line. The result
  is (group 1, group 2).
\<close>

definition sql_offsets :: "ustr \<Rightarrow> nat list" where
  "sql_offsets line = filter (\<lambda>j. take 4 (drop j line) = str ''.sql'') [1..<length line]"

definition match_migration_name :: "ustr \<Rightarrow> (ustr \<times> ustr) option" where
  "match_migration_name name =
     (let ds = takeWhile is_digit name in
      if ds = [] then None
      else case dropWhile is_digit name of
             [] \<Rightarrow> None
           | u # rest \<Rightarrow>
               if u \<noteq> of_char (CHR ''_'') then None
               else let line = takeWhile (\<lambda>c. c \<noteq> of_char LF) rest; js = sql_offsets line in
                    if js = [] then None else Some (ds, take (last js) line))"

subsection \<open>The tracking table\<close>

text \<open>
  A row of \<^verbatim>\<open>_sqlx_migrations\<close>. The column \<^verbatim>\<open>installed_on\<close> is filled by the
  store's clock (\<^verbatim>\<open>DEFAULT CURRENT_TIMESTAMP\<close>) and is left out.
\<close>

record mig_record =
  version :: int
  description :: ustr
  success :: bool
  checksum :: string
  execution_time :: int

text \<open>
  \<^verbatim>\<open>INSERT INTO _sqlx_migrations ... VALUES (?, ?, 1, ?, 1000000)\<close>. The version is the
  table's \<^verbatim>\<open>BIGINT PRIMARY KEY\<close>: binding a Python int of 64 bits or more raises
  \<^verbatim>\<open>OverflowError\<close>, a version already in the table raises \<^verbatim>\<open>IntegrityError\<close>.
\<close>

definition insert_migration :: "int \<Rightarrow> ustr \<Rightarrow> string \<Rightarrow> mig_record list \<Rightarrow> error + mig_record list" where
  "insert_migration v d c tbl =
     (if v > 2 ^ 63 - 1 then Inl OverflowError
      else if v \<in> version ` set tbl then Inl IntegrityError
      else Inr (tbl @ [\<lparr>version = v, description = d, success = True, checksum = c,
                       execution_time = 1000000\<rparr>]))"

subsection \<open>run\_migrations\<close>

text \<open>
  The store as \<open>run_migrations\<close> sees it: the tracking table, and everything else
  (\<open>schema\<close>). The migration scripts are not part of the script's code:
  \<^verbatim>\<open>conn.executescript(sql)\<close> is the parameter \<open>exec\<close>, which acts on the whole
  store (a script can write the tracking table as well) and returns the store after the
  script and the exception that the script raised, if any (a failing script keeps the
  effect of the statements before the failure: there is no rollback). Every statement of
  \<open>run_migrations\<close> is committed before the next can fail, so the store at an exception
  is the store on disk.
\<close>

record 's store =
  schema :: 's
  tracking :: "mig_record list"

type_synonym 's executescript = "string \<Rightarrow> 's store \<Rightarrow> 's store \<times> error option"

text \<open>A directory is the list of its files: (name, bytes).\<close>

type_synonym mfile = "ustr \<times> string"

text \<open>\<^verbatim>\<open>sorted(MIGRATIONS_DIR.glob("*.sql"))\<close>: the names that end in \<^verbatim>\<open>.sql\<close>,
  in ascending order of the name (paths of one directory compare by their last part,
  strings compare code point by code point).\<close>

definition glob_sql :: "mfile list \<Rightarrow> mfile list" where
  "glob_sql dir =
     filter (\<lambda>f. 4 \<le> length (fst f) \<and> drop (length (fst f) - 4) (fst f) = str ''.sql'') dir"

definition migration_files :: "mfile list \<Rightarrow> mfile list" where
  "migration_files dir = sort_key fst (glob_sql dir)"

text \<open>The body of the loop, for one file, and the loop. The result is the store and the
  exception that ended the run, if any.\<close>

fun run_files :: "(string \<Rightarrow> string) \<Rightarrow> 's executescript \<Rightarrow> mfile list \<Rightarrow> 's store \<Rightarrow> 's store \<times> error option" where
  "run_files sha384 exec [] st = (st, None)"
| "run_files sha384 exec (f # fs) st =
     (case read_text (snd f) of
        Inl e \<Rightarrow> (st, Some e)
      | Inr sql \<Rightarrow>
         (case match_migration_name (fst f) of
            None \<Rightarrow> (st, Some ValueError)
          | Some (g1, g2) \<Rightarrow>
             if length g1 > max_str_digits then (st, Some ValueError)
             else
              (let version = int_of_digits g1;
                   description = replace_char (of_char (CHR ''_'')) (of_char (CHR '' '')) g2;
                   checksum = sha384 (encode sql);
                   (st1, raised) = exec sql st
               in case raised of
                    Some e \<Rightarrow> (st1, Some e)
                  | None \<Rightarrow>
                     (case insert_migration version description checksum (tracking st1) of
                        Inl e \<Rightarrow> (st1, Some e)
                      | Inr tbl \<Rightarrow> run_files sha384 exec fs (st1\<lparr>tracking := tbl\<rparr>)))))"

definition run_migrations :: "(string \<Rightarrow> string) \<Rightarrow> 's executescript \<Rightarrow> mfile list \<Rightarrow> 's store \<Rightarrow> 's store \<times> error option" where
  "run_migrations sha384 exec dir st = run_files sha384 exec (migration_files dir) st"

text \<open>
  A store that keeps the list of the scripts handed to \<^verbatim>\<open>executescript\<close>, in
  order, and whose scripts leave the tracking table alone; \<open>ok log sql\<close> is the exception
  that script \<open>sql\<close> raises on the store reached by \<open>log\<close>, if it raises one. It makes
  visible which scripts a run has executed. \<open>ok_unless bad\<close> makes the scripts of
  \<open>bad\<close> fail and no other.
\<close>

definition logged :: "(string list \<Rightarrow> string \<Rightarrow> error option) \<Rightarrow> string list executescript" where
  "logged ok sql st = (st\<lparr>schema := schema st @ [sql]\<rparr>, ok (schema st) sql)"

definition ok_unless :: "string list \<Rightarrow> string list \<Rightarrow> string \<Rightarrow> error option" where
  "ok_unless bad log sql = (if sql \<in> set bad then Some OperationalError else None)"












section \<open>The generators\<close>

subsection \<open>Module constants\<close>

definition NUM_FEEDS :: nat where "NUM_FEEDS = 1000"
definition NUM_ARTICLES :: nat where "NUM_ARTICLES = 100000"
definition NUM_TAGS :: nat where "NUM_TAGS = 50"

definition LOREM_WORDS :: "string list" where
  "LOREM_WORDS = [
    ''lorem'', ''ipsum'', ''dolor'', ''sit'', ''amet'', ''consectetur'', ''adipiscing'',
    ''elit'', ''sed'', ''do'', ''eiusmod'', ''tempor'', ''incididunt'', ''ut'', ''labore'',
    ''et'', ''dolore'', ''magna'', ''aliqua'', ''enim'', ''ad'', ''minim'', ''veniam'',
    ''quis'', ''nostrud'', ''exercitation'', ''ullamco'', ''laboris'', ''nisi'',
    ''aliquip'', ''ex'', ''ea'', ''commodo'', ''consequat'', ''duis'', ''aute'', ''irure'',
    ''in'', ''reprehenderit'', ''voluptate'', ''velit'', ''esse'', ''cillum'', ''fugiat'',
    ''nulla'', ''pariatur'', ''excepteur'', ''sint'', ''occaecat'', ''cupidatat'', ''non'',
    ''proident'', ''sunt'', ''culpa'', ''qui'', ''officia'', ''deserunt'', ''mollit'',
    ''anim'', ''id'', ''est'', ''laborum'', ''cras'', ''justo'', ''odio'', ''dapibus'',
    ''facilisis'', ''egestas'', ''felis'', ''donec'', ''pulvinar'', ''neque'', ''laoreet'',
    ''suspendisse'', ''interdum'', ''faucibus'', ''nisl'', ''tincidunt'', ''integer'',
    ''posuere'', ''erat'', ''ante'', ''venenatis'', ''morbi'', ''leo'', ''risus'', ''porta'',
    ''ac'', ''vestibulum'', ''at'', ''eros'', ''praesent'', ''blandit'', ''euismod'']"

definition TAG_NAMES :: "string list" where
  "TAG_NAMES = [
    ''tech'', ''news'', ''science'', ''politics'', ''sports'', ''entertainment'',
    ''gaming'', ''programming'', ''rust'', ''python'', ''javascript'', ''linux'',
    ''open-source'', ''security'', ''ai'', ''machine-learning'', ''data-science'',
    ''web-dev'', ''mobile'', ''devops'', ''cloud'', ''database'', ''networking'',
    ''hardware'', ''software'', ''tutorials'', ''reviews'', ''opinion'', ''analysis'',
    ''breaking'', ''daily'', ''weekly'', ''monthly'', ''featured'', ''popular'',
    ''trending'', ''archived'', ''important'', ''bookmarked'', ''read-later'',
    ''favorites'', ''must-read'', ''recommended'', ''community'', ''official'',
    ''indie'', ''mainstream'', ''international'', ''local'']"

definition COLORS :: "string list" where
  "COLORS = [
    ''#3B82F6'', ''#EF4444'', ''#10B981'', ''#F59E0B'', ''#8B5CF6'',
    ''#EC4899'', ''#06B6D4'', ''#84CC16'', ''#F97316'', ''#6366F1'']"

definition STYLES :: "string list" where
  "STYLES = [''solid'', ''outline'', ''subtle'']"

subsection \<open>The random generator\<close>

text \<open>
  The module \<^verbatim>\<open>random\<close> keeps a global state. It is modelled as a tape of raw draws
  and a position on it: each call reads the next entries. Every sequence of results that
  the library can return is the behaviour of some tape, and the properties below hold for
  every tape.
\<close>

type_synonym rng = "(nat \<Rightarrow> nat) \<times> nat"

definition draw :: "rng \<Rightarrow> nat \<times> rng" where
  "draw g = (fst g (snd g), (fst g, Suc (snd g)))"

text \<open>\<^verbatim>\<open>random.randint(a, b)\<close>, for \<open>a \<le> b\<close>: an integer of \<open>[a, b]\<close>.\<close>

definition randint :: "int \<Rightarrow> int \<Rightarrow> rng \<Rightarrow> int \<times> rng" where
  "randint a b g = (let (r, g') = draw g in (a + int (r mod nat (b - a + 1)), g'))"

text \<open>\<^verbatim>\<open>random.choice(xs)\<close>: \<open>pick\<close> for a non-empty sequence; the call raises
  \<^verbatim>\<open>IndexError\<close> on an empty one.\<close>

definition pick :: "'a list \<Rightarrow> rng \<Rightarrow> 'a \<times> rng" where
  "pick xs g = (let (r, g') = draw g in (xs ! (r mod length xs), g'))"

definition choice :: "'a list \<Rightarrow> rng \<Rightarrow> error + 'a \<times> rng" where
  "choice xs g = (if xs = [] then Inl IndexError else Inr (pick xs g))"

text \<open>Running a generator \<open>n\<close> times, in sequence.\<close>

fun repeat :: "nat \<Rightarrow> (rng \<Rightarrow> 'a \<times> rng) \<Rightarrow> rng \<Rightarrow> 'a list \<times> rng" where
  "repeat 0 f g = ([], g)"
| "repeat (Suc n) f g =
     (let (x, g1) = f g; (xs, g2) = repeat n f g1 in (x # xs, g2))"

text \<open>\<^verbatim>\<open>random.choices(xs, k=n)\<close>: \<open>n\<close> picks with replacement.\<close>

definition choices :: "'a list \<Rightarrow> nat \<Rightarrow> rng \<Rightarrow> 'a list \<times> rng" where
  "choices xs n g = repeat n (pick xs) g"

text \<open>\<^verbatim>\<open>random.sample(xs, k)\<close>, for \<open>k \<le> len(xs)\<close>: \<open>k\<close> elements at distinct
  positions, in the order of selection.\<close>

fun sample :: "'a list \<Rightarrow> nat \<Rightarrow> rng \<Rightarrow> 'a list \<times> rng" where
  "sample xs 0 g = ([], g)"
| "sample xs (Suc k) g =
     (let (r, g1) = draw g;
          j = r mod length xs;
          (ys, g2) = sample (take j xs @ drop (Suc j) xs) k g1
      in (xs ! j # ys, g2))"

text \<open>\<^verbatim>\<open>random.random() < p\<close> for \<open>p\<close> given in hundredths.\<close>

definition random_lt :: "nat \<Rightarrow> rng \<Rightarrow> bool \<times> rng" where
  "random_lt percent g = (let (r, g') = draw g in (r mod 100 < percent, g'))"

subsection \<open>Strings\<close>

definition join :: "string \<Rightarrow> string list \<Rightarrow> string" where
  "join sep xs = (case xs of [] \<Rightarrow> [] | y # ys \<Rightarrow> y @ concat (map (\<lambda>s. sep @ s) ys))"

text \<open>The decimal text of a number, as an f-string renders it.\<close>

fun str_of_nat :: "nat \<Rightarrow> string" where
  "str_of_nat n =
     (if n < 10 then [''0123456789'' ! n]
      else str_of_nat (n div 10) @ [''0123456789'' ! (n mod 10)])"

definition lowers :: string where "lowers = ''abcdefghijklmnopqrstuvwxyz''"
definition uppers :: string where "uppers = ''ABCDEFGHIJKLMNOPQRSTUVWXYZ''"

definition to_upper :: "char \<Rightarrow> char" where
  "to_upper c = (case map_of (zip lowers uppers) c of Some u \<Rightarrow> u | None \<Rightarrow> c)"

definition to_lower :: "char \<Rightarrow> char" where
  "to_lower c = (case map_of (zip uppers lowers) c of Some l \<Rightarrow> l | None \<Rightarrow> c)"

definition is_alpha :: "char \<Rightarrow> bool" where
  "is_alpha c = (c \<in> set lowers \<or> c \<in> set uppers)"

text \<open>\<^verbatim>\<open>s.capitalize()\<close> and \<^verbatim>\<open>s.title()\<close>, on ASCII text.\<close>

definition capitalize :: "string \<Rightarrow> string" where
  "capitalize s = (case s of [] \<Rightarrow> [] | c # cs \<Rightarrow> to_upper c # map to_lower cs)"

fun title_from :: "bool \<Rightarrow> string \<Rightarrow> string" where
  "title_from prev [] = []"
| "title_from prev (c # cs) =
     (if is_alpha c then (if prev then to_lower c else to_upper c) # title_from True cs
      else c # title_from False cs)"

definition titlecase :: "string \<Rightarrow> string" where
  "titlecase s = title_from False s"

subsection \<open>Lorem ipsum\<close>

definition lorem_words :: "nat \<Rightarrow> rng \<Rightarrow> string \<times> rng" where
  "lorem_words count g = (let (ws, g') = choices LOREM_WORDS count g in (join '' '' ws, g'))"

definition lorem_sentence :: "rng \<Rightarrow> string \<times> rng" where
  "lorem_sentence g =
     (let (n, g1) = randint 5 15 g;
          (sentence, g2) = lorem_words (nat n) g1
      in (capitalize sentence @ ''.'', g2))"

definition lorem_paragraph :: "rng \<Rightarrow> string \<times> rng" where
  "lorem_paragraph g =
     (let (n, g1) = randint 3 8 g;
          (sentences, g2) = repeat (nat n) lorem_sentence g1
      in (join '' '' sentences, g2))"

definition lorem_paragraphs :: "nat \<Rightarrow> rng \<Rightarrow> string \<times> rng" where
  "lorem_paragraphs count g =
     (let (paragraphs, g') =
            repeat count (\<lambda>g. let (p, g1) = lorem_paragraph g in (''<p>'' @ p @ ''</p>'', g1)) g
      in (join [LF] paragraphs, g'))"

subsection \<open>Identifiers and time\<close>

text \<open>\<^verbatim>\<open>str(uuid.uuid4())\<close>: 128 random bits with the version and variant bits set,
  as 32 hexadecimal digits in groups of 8, 4, 4, 4 and 12.\<close>

definition hex :: "nat \<Rightarrow> nat \<Rightarrow> string" where
  "hex w n = map (\<lambda>k. ''0123456789abcdef'' ! ((n div 16 ^ k) mod 16)) (rev [0..<w])"

definition uuid4 :: "rng \<Rightarrow> string \<times> rng" where
  "uuid4 g =
     (let (r, g') = draw g;
          n = r mod 2 ^ 128;
          time_low = n div 2 ^ 96;
          time_mid = (n div 2 ^ 80) mod 2 ^ 16;
          time_hi = 0x4000 + (n div 2 ^ 64) mod 2 ^ 12;
          clock_seq = 0x8000 + (n div 2 ^ 48) mod 2 ^ 14;
          node = n mod 2 ^ 48
      in (hex 8 time_low @ ''-'' @ hex 4 time_mid @ ''-'' @ hex 4 time_hi @ ''-''
            @ hex 4 clock_seq @ ''-'' @ hex 12 node, g'))"

text \<open>
  A \<^verbatim>\<open>datetime\<close> is its position on the time line in microseconds, a
  \<^verbatim>\<open>timedelta\<close> a number of microseconds. The timestamp columns hold the
  \<^verbatim>\<open>datetime\<close> itself rather than its \<^verbatim>\<open>isoformat()\<close> text.
\<close>

definition timedelta :: "int \<Rightarrow> int \<Rightarrow> int \<Rightarrow> int" where
  "timedelta days hours minutes = ((days * 24 + hours) * 60 + minutes) * 60000000"

subsection \<open>The tables\<close>

text \<open>
  Modelled from the spec: the schema that the migration scripts create (the migrations
  directory is not part of the script's code). Spec \<section>3 gives the columns; the
  constraints taken from it are: \<^verbatim>\<open>tags.name\<close> is unique, a
  \<^verbatim>\<open>feed_tags\<close> pair is unique, an \<^verbatim>\<open>articles_fts\<close> entry is keyed by the
  identifier of its article (its \<^verbatim>\<open>rowid\<close>). An \<^verbatim>\<open>id\<close> column is the row id
  that SQLite assigns: one more than the largest in the table, 1 in an empty table.
  Foreign keys are not enforced (the connection never enables them).
\<close>

record tag_row =
  t_id :: int
  t_name :: string
  t_color :: string
  t_style :: string

record feed_row =
  f_id :: int
  f_url :: string
  f_title :: string
  f_description :: string
  f_site_url :: string
  f_color :: string
  f_fetch_frequency :: string
  f_created_at :: int
  f_updated_at :: int

text \<open>The tuple that \<open>create_articles\<close> buffers for one article, and the row it becomes.\<close>

record article_values =
  a_feed_id :: int
  a_guid :: string
  a_title :: string
  a_url :: string
  a_content :: string
  a_summary :: string
  a_author :: string
  a_published_at :: int
  a_is_read :: bool
  a_is_starred :: bool
  a_created_at :: int
  a_updated_at :: int

record article_row = article_values +
  a_id :: int

record fts_row =
  fts_rowid :: int
  fts_article_id :: int
  fts_title :: string
  fts_content :: string
  fts_summary :: string
  fts_author :: string

text \<open>The fields \<open>trg_insert\<close>, \<open>trg_update\<close> and \<open>trg_delete\<close> tell whether
  the triggers \<^verbatim>\<open>articles_fts_insert\<close>, \<^verbatim>\<open>articles_fts_update\<close> and
  \<^verbatim>\<open>articles_fts_delete\<close> exist.\<close>

record tables =
  tags :: "tag_row list"
  feeds :: "feed_row list"
  feed_tags :: "(int \<times> int) list"
  articles :: "article_row list"
  articles_fts :: "fts_row list"
  trg_insert :: bool
  trg_update :: bool
  trg_delete :: bool

text \<open>A connection: the tables as the statements executed so far have left them, and the
  tables as of the last commit.\<close>

record conn =
  live :: tables
  disk :: tables

definition commit :: "conn \<Rightarrow> conn" where
  "commit c = c\<lparr>disk := live c\<rparr>"

definition next_id :: "int list \<Rightarrow> int" where
  "next_id ids = (if ids = [] then 1 else Max (set ids) + 1)"

text \<open>\<^verbatim>\<open>INSERT INTO tags (name, color, style) VALUES (?, ?, ?)\<close>; the result carries
  \<^verbatim>\<open>cursor.lastrowid\<close>.\<close>

definition insert_tag :: "string \<Rightarrow> string \<Rightarrow> string \<Rightarrow> tables \<Rightarrow> error + int \<times> tables" where
  "insert_tag name color style t =
     (if name \<in> t_name ` set (tags t) then Inl IntegrityError
      else let rowid = next_id (map t_id (tags t)) in
           Inr (rowid, t\<lparr>tags := tags t @
                  [\<lparr>t_id = rowid, t_name = name, t_color = color, t_style = style\<rparr>]\<rparr>))"

text \<open>\<^verbatim>\<open>INSERT INTO feeds (...) VALUES (...)\<close>, given the row without its id.\<close>

definition insert_feed :: "feed_row \<Rightarrow> tables \<Rightarrow> int \<times> tables" where
  "insert_feed row t =
     (let rowid = next_id (map f_id (feeds t)) in
      (rowid, t\<lparr>feeds := feeds t @ [row\<lparr>f_id := rowid\<rparr>]\<rparr>))"

text \<open>\<^verbatim>\<open>INSERT OR IGNORE INTO feed_tags (feed_id, tag_id) VALUES (?, ?)\<close>: a pair that
  is already in the table is skipped.\<close>

definition insert_or_ignore_feed_tag :: "int \<times> int \<Rightarrow> tables \<Rightarrow> tables" where
  "insert_or_ignore_feed_tag p t =
     (if p \<in> set (feed_tags t) then t else t\<lparr>feed_tags := feed_tags t @ [p]\<rparr>)"

text \<open>The FTS entry of an article: \<^verbatim>\<open>(id, id, title, content, summary, author)\<close>, as in
  the bulk statement and in the insert trigger.\<close>

definition fts_of :: "article_row \<Rightarrow> fts_row" where
  "fts_of a = \<lparr>fts_rowid = a_id a, fts_article_id = a_id a, fts_title = a_title a,
              fts_content = a_content a, fts_summary = a_summary a, fts_author = a_author a\<rparr>"

text \<open>An insert into \<^verbatim>\<open>articles_fts\<close> with an explicit rowid: a rowid that is taken
  is a constraint failure.\<close>

definition fts_insert :: "fts_row \<Rightarrow> tables \<Rightarrow> error + tables" where
  "fts_insert r t =
     (if fts_rowid r \<in> fts_rowid ` set (articles_fts t) then Inl IntegrityError
      else Inr (t\<lparr>articles_fts := articles_fts t @ [r]\<rparr>))"

fun fts_insert_all :: "fts_row list \<Rightarrow> tables \<Rightarrow> error + tables" where
  "fts_insert_all [] t = Inr t"
| "fts_insert_all (r # rs) t =
     (case fts_insert r t of Inl e \<Rightarrow> Inl e | Inr t' \<Rightarrow> fts_insert_all rs t')"

text \<open>\<^verbatim>\<open>INSERT INTO articles (...) VALUES (...)\<close> for one buffered tuple; the trigger
  \<^verbatim>\<open>articles_fts_insert\<close>, when it exists, inserts the FTS entry of the new row.\<close>

definition article_of :: "int \<Rightarrow> article_values \<Rightarrow> article_row" where
  "article_of rowid v = article_values.extend v \<lparr>a_id = rowid\<rparr>"

definition insert_article :: "article_values \<Rightarrow> tables \<Rightarrow> error + tables" where
  "insert_article v t =
     (let row = article_of (next_id (map a_id (articles t))) v;
          t' = t\<lparr>articles := articles t @ [row]\<rparr>
      in if trg_insert t then fts_insert (fts_of row) t' else Inr t')"

text \<open>\<^verbatim>\<open>cursor.executemany("INSERT INTO articles ...", batch)\<close>: one insert per tuple,
  in order.\<close>

fun executemany_articles :: "article_values list \<Rightarrow> tables \<Rightarrow> error + tables" where
  "executemany_articles [] t = Inr t"
| "executemany_articles (v # vs) t =
     (case insert_article v t of Inl e \<Rightarrow> Inl e | Inr t' \<Rightarrow> executemany_articles vs t')"

text \<open>The rows of \<^verbatim>\<open>articles\<close> after the inserts of the tuples \<open>vs\<close>, one after the
  other, into a table with the rows \<open>rs\<close>.\<close>

fun add_articles :: "article_values list \<Rightarrow> article_row list \<Rightarrow> article_row list" where
  "add_articles [] rs = rs"
| "add_articles (v # vs) rs = add_articles vs (rs @ [article_of (next_id (map a_id rs)) v])"

text \<open>The rows of \<^verbatim>\<open>feed_tags\<close> after \<^verbatim>\<open>INSERT OR IGNORE\<close> of the pair of
  feed \<open>f\<close> with each tag of a list, in order, into a table with the rows \<open>tb\<close>.\<close>

fun add_feed_tags :: "int \<Rightarrow> int list \<Rightarrow> (int \<times> int) list \<Rightarrow> (int \<times> int) list" where
  "add_feed_tags f [] tb = tb"
| "add_feed_tags f (tg # tgs) tb =
     add_feed_tags f tgs (if (f, tg) \<in> set tb then tb else tb @ [(f, tg)])"

subsection \<open>create\_tags\<close>

text \<open>
  The generators read the module constants \<^verbatim>\<open>NUM_TAGS\<close>, \<^verbatim>\<open>NUM_FEEDS\<close> and
  \<^verbatim>\<open>NUM_ARTICLES\<close>; here each takes its count as an argument and \<open>seed\<close> below
  passes the constant. A generator that raises returns the exception only: \<^verbatim>\<open>main\<close>
  closes the connection, which discards what was not committed.
\<close>

fun tags_loop :: "string list \<Rightarrow> tables \<times> int list \<times> rng \<Rightarrow> error + tables \<times> int list \<times> rng" where
  "tags_loop [] s = Inr s"
| "tags_loop (name # names) (t, tag_ids, g) =
     (let (color, g1) = pick COLORS g;
          (style, g2) = pick STYLES g1
      in case insert_tag name color style t of
           Inl e \<Rightarrow> Inl e
         | Inr (lastrowid, t') \<Rightarrow> tags_loop names (t', tag_ids @ [lastrowid], g2))"

definition create_tags :: "nat \<Rightarrow> conn \<Rightarrow> rng \<Rightarrow> error + conn \<times> int list \<times> rng" where
  "create_tags num_tags c g =
     (case tags_loop (take num_tags TAG_NAMES) (live c, [], g) of
        Inl e \<Rightarrow> Inl e
      | Inr (t, tag_ids, g') \<Rightarrow> Inr (commit (c\<lparr>live := t\<rparr>), tag_ids, g'))"

subsection \<open>create\_feeds\<close>

text \<open>The body of the loop for index \<open>i\<close> has four parts: it draws the values of the
  feed, inserts the row, selects the tags, and inserts one association per selected tag.
  \<open>feed_values\<close> is the first (the row without its id), \<open>selected_tags\<close> the third:
  \<^verbatim>\<open>random.randint(0, 5)\<close>, then \<^verbatim>\<open>random.sample\<close> when the number is positive
  and there are tags, and no tag otherwise.\<close>

definition feed_values :: "int \<Rightarrow> nat \<Rightarrow> rng \<Rightarrow> feed_row \<times> rng" where
  "feed_values now i g =
     (let (ws, g1) = lorem_words 3 g;
          title = ''Feed #'' @ str_of_nat (i + 1) @ '': '' @ titlecase ws;
          url = ''https://invalid-feed-'' @ str_of_nat (i + 1) @ ''.example.invalid/rss.xml'';
          (description, g2) = lorem_sentence g1;
          site_url = ''https://invalid-feed-'' @ str_of_nat (i + 1) @ ''.example.invalid'';
          (color, g3) = pick COLORS g2;
          (fetch_frequency, g4) = pick [''smart'', ''frequent'', ''normal'', ''rare''] g3;
          (days, g5) = randint 0 365 g4;
          created_at = now - timedelta days 0 0
      in (\<lparr>f_id = 0, f_url = url, f_title = title, f_description = description,
           f_site_url = site_url, f_color = color, f_fetch_frequency = fetch_frequency,
           f_created_at = created_at, f_updated_at = created_at\<rparr>, g5))"

definition selected_tags :: "int list \<Rightarrow> rng \<Rightarrow> int list \<times> rng" where
  "selected_tags tag_ids g =
     (let (num_tags, g1) = randint 0 5 g
      in if num_tags > 0 \<and> tag_ids \<noteq> [] then
           sample tag_ids (min (nat num_tags) (length tag_ids)) g1
         else ([], g1))"

text \<open>The body of the loop, on the tables, the list of feed ids so far and the
  generator.\<close>

definition create_feed :: "int list \<Rightarrow> int \<Rightarrow> nat \<Rightarrow> tables \<times> int list \<times> rng \<Rightarrow> tables \<times> int list \<times> rng" where
  "create_feed tag_ids now i s =
     (let (t, feed_ids, g) = s;
          (row, g1) = feed_values now i g;
          (lastrowid, t1) = insert_feed row t;
          feed_ids' = feed_ids @ [lastrowid];
          (selected, g2) = selected_tags tag_ids g1
      in (fold (\<lambda>tag_id. insert_or_ignore_feed_tag (last feed_ids', tag_id)) selected t1,
          feed_ids', g2))"

definition create_feeds :: "nat \<Rightarrow> conn \<Rightarrow> int list \<Rightarrow> int \<Rightarrow> rng \<Rightarrow> conn \<times> int list \<times> rng" where
  "create_feeds num_feeds c tag_ids now g =
     (let (t, feed_ids, g') = fold (create_feed tag_ids now) [0..<num_feeds] (live c, [], g)
      in (commit (c\<lparr>live := t\<rparr>), feed_ids, g'))"

text \<open>The tags that a run of the loop over the indices \<open>is\<close> selects, feed by
  feed: the values of \<open>selected_tags\<close> in the iterations, with the generator passed
  on as the loop passes it.\<close>

fun samples :: "int list \<Rightarrow> int \<Rightarrow> nat list \<Rightarrow> rng \<Rightarrow> int list list" where
  "samples tag_ids now [] g = []"
| "samples tag_ids now (i # is) g =
     (let (row, g1) = feed_values now i g;
          (selected, g2) = selected_tags tag_ids g1
      in selected # samples tag_ids now is g2)"

subsection \<open>create\_articles\<close>

text \<open>The function has three phases: it drops the three triggers, loads the articles,
  and rebuilds the FTS table (the bulk statement, then the re-creation of the triggers).
  Each phase is a definition here; \<open>create_articles\<close> runs them in order.\<close>

definition fts_suspend :: "tables \<Rightarrow> tables" where
  "fts_suspend t = t\<lparr>trg_insert := False, trg_update := False, trg_delete := False\<rparr>"

text \<open>\<^verbatim>\<open>INSERT INTO articles_fts(rowid, article_id, ...) SELECT id, id, ... FROM articles\<close>:
  one statement, which fails as a whole.\<close>

definition fts_populate :: "tables \<Rightarrow> error + tables" where
  "fts_populate t = fts_insert_all (map fts_of (articles t)) t"

text \<open>\<^verbatim>\<open>CREATE TRIGGER IF NOT EXISTS\<close>, three times.\<close>

definition fts_create_triggers :: "tables \<Rightarrow> tables" where
  "fts_create_triggers t = t\<lparr>trg_insert := True, trg_delete := True, trg_update := True\<rparr>"

text \<open>The rebuild returns the connection and the exception, if any: the bulk statement
  that fails leaves the store as it was, and the triggers are not touched.\<close>

definition fts_rebuild :: "conn \<Rightarrow> conn \<times> error option" where
  "fts_rebuild c =
     (case fts_populate (live c) of
        Inl e \<Rightarrow> (c, Some e)
      | Inr t \<Rightarrow> (let c1 = commit (c\<lparr>live := t\<rparr>)
                 in (commit (c1\<lparr>live := fts_create_triggers (live c1)\<rparr>), None)))"

text \<open>The tuple of article \<open>i\<close>.\<close>

definition gen_article :: "int list \<Rightarrow> int \<Rightarrow> nat \<Rightarrow> rng \<Rightarrow> error + article_values \<times> rng" where
  "gen_article feed_ids now i g =
     (case choice feed_ids g of
        Inl e \<Rightarrow> Inl e
      | Inr (feed_id, g1) \<Rightarrow>
         (let (n, g2) = randint 4 10 g1;
              (ws, g3) = lorem_words (nat n) g2;
              title = ''Article #'' @ str_of_nat (i + 1) @ '': '' @ titlecase ws;
              (guid, g4) = uuid4 g3;
              url = ''https://example.invalid/article/'' @ guid;
              (k, g5) = randint 2 6 g4;
              (content, g6) = lorem_paragraphs (nat k) g5;
              (summary, g7) = lorem_paragraph g6;
              (aw, g8) = lorem_words 2 g7;
              author = titlecase aw;
              (days, g9) = randint 0 365 g8;
              (hours, g10) = randint 0 23 g9;
              (minutes, g11) = randint 0 59 g10;
              published_at = now - timedelta days hours minutes;
              (is_read, g12) = random_lt 30 g11;
              (is_starred, g13) = random_lt 5 g12;
              (offset, g14) = randint 1 60 g13;
              created_at = published_at + timedelta 0 0 offset
          in Inr (\<lparr>a_feed_id = feed_id, a_guid = guid, a_title = title, a_url = url,
                   a_content = content, a_summary = summary, a_author = author,
                   a_published_at = published_at, a_is_read = is_read,
                   a_is_starred = is_starred, a_created_at = created_at,
                   a_updated_at = created_at\<rparr>, g14)))"

definition batch_size :: nat where "batch_size = 1000"

text \<open>The loop over the article indices, on the connection, the buffer and the generator.\<close>

fun articles_loop :: "int list \<Rightarrow> int \<Rightarrow> nat list \<Rightarrow> conn \<times> article_values list \<times> rng
    \<Rightarrow> error + conn \<times> article_values list \<times> rng" where
  "articles_loop feed_ids now [] s = Inr s"
| "articles_loop feed_ids now (i # is) (c, articles_batch, g) =
     (case gen_article feed_ids now i g of
        Inl e \<Rightarrow> Inl e
      | Inr (v, g') \<Rightarrow>
         (let articles_batch' = articles_batch @ [v] in
          if length articles_batch' \<ge> batch_size then
            (case executemany_articles articles_batch' (live c) of
               Inl e \<Rightarrow> Inl e
             | Inr t \<Rightarrow> articles_loop feed_ids now is (commit (c\<lparr>live := t\<rparr>), [], g'))
          else articles_loop feed_ids now is (c, articles_batch', g')))"

text \<open>The load proper: the loop, then the insert of the remaining articles.\<close>

definition load_articles :: "nat \<Rightarrow> conn \<Rightarrow> int list \<Rightarrow> int \<Rightarrow> rng \<Rightarrow> error + conn \<times> rng" where
  "load_articles num_articles c feed_ids now g =
     (case articles_loop feed_ids now [0..<num_articles] (c, [], g) of
        Inl e \<Rightarrow> Inl e
      | Inr (c', articles_batch, g') \<Rightarrow>
          if articles_batch \<noteq> [] then
            (case executemany_articles articles_batch (live c') of
               Inl e \<Rightarrow> Inl e
             | Inr t \<Rightarrow> Inr (commit (c'\<lparr>live := t\<rparr>), g'))
          else Inr (c', g'))"

definition create_articles :: "nat \<Rightarrow> conn \<Rightarrow> int list \<Rightarrow> int \<Rightarrow> rng \<Rightarrow> error + conn \<times> rng" where
  "create_articles num_articles c feed_ids now g =
     (case load_articles num_articles (commit (c\<lparr>live := fts_suspend (live c)\<rparr>)) feed_ids now g of
        Inl e \<Rightarrow> Inl e
      | Inr (c', g') \<Rightarrow>
         (case fts_rebuild c' of
            (c'', Some e) \<Rightarrow> Inl e
          | (c'', None) \<Rightarrow> Inr (c'', g')))"

subsection \<open>The run\<close>

text \<open>\<^verbatim>\<open>print_stats\<close>: the four counts (feeds, articles, tags, feed-tag associations).\<close>

definition print_stats :: "conn \<Rightarrow> nat \<times> nat \<times> nat \<times> nat" where
  "print_stats c =
     (length (feeds (live c)), length (articles (live c)), length (tags (live c)),
      length (feed_tags (live c)))"

text \<open>The generator stages of \<^verbatim>\<open>main\<close>, with the configured constants, on the
  connection that the migrations have prepared.\<close>

definition seed :: "conn \<Rightarrow> int \<Rightarrow> rng \<Rightarrow> error + conn \<times> rng" where
  "seed c now g =
     (case create_tags NUM_TAGS c g of
        Inl e \<Rightarrow> Inl e
      | Inr (c1, tag_ids, g1) \<Rightarrow>
         (let (c2, feed_ids, g2) = create_feeds NUM_FEEDS c1 tag_ids now g1
          in create_articles NUM_ARTICLES c2 feed_ids now g2))"

text \<open>An empty target with the schema in place: no rows, the three triggers active.\<close>

definition empty_tables :: tables where
  "empty_tables = \<lparr>tags = [], feeds = [], feed_tags = [], articles = [], articles_fts = [],
                   trg_insert = True, trg_update = True, trg_delete = True\<rparr>"

definition fresh :: conn where
  "fresh = \<lparr>live = empty_tables, disk = empty_tables\<rparr>"

text \<open>A small store in a consistent state: one tag, one feed carrying it, one article of
  the feed and the article's FTS entry, the triggers active, everything committed.\<close>

definition small_tables :: tables where
  "small_tables =
     \<lparr>tags = [\<lparr>t_id = 1, t_name = ''tech'', t_color = ''#3B82F6'', t_style = ''solid''\<rparr>],
      feeds = [\<lparr>f_id = 1, f_url = ''https://invalid-feed-1.example.invalid/rss.xml'',
                f_title = ''Feed #1: Lorem Ipsum Dolor'', f_description = ''Lorem ipsum.'',
                f_site_url = ''https://invalid-feed-1.example.invalid'', f_color = ''#3B82F6'',
                f_fetch_frequency = ''smart'', f_created_at = 0, f_updated_at = 0\<rparr>],
      feed_tags = [(1, 1)],
      articles = [\<lparr>a_feed_id = 1, a_guid = ''00000000-0000-4000-8000-000000000000'',
                   a_title = ''Article #1: Lorem Ipsum'',
                   a_url = ''https://example.invalid/article/00000000-0000-4000-8000-000000000000'',
                   a_content = ''<p>Lorem ipsum.</p>'', a_summary = ''Lorem ipsum.'',
                   a_author = ''Lorem Ipsum'', a_published_at = 0, a_is_read = False,
                   a_is_starred = False, a_created_at = 60000000, a_updated_at = 60000000,
                   a_id = 1\<rparr>],
      articles_fts = [\<lparr>fts_rowid = 1, fts_article_id = 1, fts_title = ''Article #1: Lorem Ipsum'',
                       fts_content = ''<p>Lorem ipsum.</p>'', fts_summary = ''Lorem ipsum.'',
                       fts_author = ''Lorem Ipsum''\<rparr>],
      trg_insert = True, trg_update = True, trg_delete = True\<rparr>"

definition small_conn :: conn where
  "small_conn = \<lparr>live = small_tables, disk = small_tables\<rparr>"


section \<open>Properties of run\_migrations\<close>

subsection \<open>One step of the loop\<close>







subsection \<open>The whole run on a logging store\<close>


subsection \<open>Text order and numeric order\<close>









subsection \<open>Consequences of a fault and of a clean prefix\<close>




subsection \<open>Evaluation on concrete directories\<close>

lemmas mig_eval =
  run_migrations_def migration_files_def glob_sql_def read_text_def match_migration_name_def
  str_def is_digit_def digit_value_def digit_zeros_def max_str_digits_def byte_def sql_offsets_def
  LF_def CR_def logged_def ok_unless_def insert_migration_def int_of_digits_def digit_val_def
  replace_char_def encode_def


subsection \<open>Order of application\<close>




subsection \<open>The recorded checksum\<close>

text \<open>
  C4: the checksum in the tracking record is the SHA-384 digest of the exact bytes of the
  file. The code digests \<^verbatim>\<open>read_text().encode()\<close>, the text after newline
  translation: for the file \<^verbatim>\<open>1_a.sql\<close> with the bytes \<^verbatim>\<open>SELECT 1;\r\n\<close> the
  script runs, and the record holds the digest of \<^verbatim>\<open>SELECT 1;\n\<close>, which is not
  the content of the file, whatever the digest function.
\<close>

theorem checksum_of_crlf_file:
  "snd (run_migrations sha384 (logged (ok_unless []))
      [(str ''1_a.sql'', ''SELECT 1;'' @ [CR, LF])] \<lparr>schema = [], tracking = []\<rparr>) = None
   \<and> map checksum (tracking (fst (run_migrations sha384 (logged (ok_unless []))
      [(str ''1_a.sql'', ''SELECT 1;'' @ [CR, LF])] \<lparr>schema = [], tracking = []\<rparr>)))
     = [sha384 (''SELECT 1;'' @ [LF])]
   \<and> ''SELECT 1;'' @ [LF] \<noteq> ''SELECT 1;'' @ [CR, LF]"
  by (simp add: mig_eval)

subsection \<open>Faults\<close>




subsection \<open>The constant columns of the tracking records\<close>





section \<open>Properties of the generators\<close>

subsection \<open>Row ids\<close>

lemma next_id_gt: "x \<in> set ids \<Longrightarrow> x < next_id ids"
proof -
  assume "x \<in> set ids"
  then have "x \<le> Max (set ids)" "ids \<noteq> []" by auto
  then show ?thesis by (simp add: next_id_def)
qed

lemma next_id_fresh: "next_id ids \<notin> set ids"
  using next_id_gt[of "next_id ids" ids] by auto

subsection \<open>create\_tags\<close>

lemma length_TAG_NAMES: "length TAG_NAMES = 49"
  by (simp add: TAG_NAMES_def)

lemma distinct_TAG_NAMES: "distinct TAG_NAMES"
  by (simp add: TAG_NAMES_def)

lemma tags_loop_ok:
  assumes "distinct names" "set names \<inter> t_name ` set (tags t) = {}"
  shows "\<exists>t' new g'. tags_loop names (t, ids, g) = Inr (t', ids @ new, g')
     \<and> length new = length names
     \<and> map t_name (tags t') = map t_name (tags t) @ names
     \<and> t' = t\<lparr>tags := tags t'\<rparr>"
  using assms
proof (induction names arbitrary: t ids g)
  case Nil
  then show ?case by simp
next
  case (Cons name names)
  obtain color g1 where p1: "pick COLORS g = (color, g1)" by (cases "pick COLORS g")
  obtain style g2 where p2: "pick STYLES g1 = (style, g2)" by (cases "pick STYLES g1")
  define rowid where "rowid = next_id (map t_id (tags t))"
  define t1 where "t1 = t\<lparr>tags := tags t @
                  [\<lparr>t_id = rowid, t_name = name, t_color = color, t_style = style\<rparr>]\<rparr>"
  from Cons.prems have ins: "insert_tag name color style t = Inr (rowid, t1)"
    by (auto simp: insert_tag_def rowid_def t1_def Let_def)
  have step: "tags_loop (name # names) (t, ids, g) = tags_loop names (t1, ids @ [rowid], g2)"
    by (simp add: p1 p2 ins)
  from Cons.prems have "distinct names" "set names \<inter> t_name ` set (tags t1) = {}"
    by (auto simp: t1_def)
  from Cons.IH[OF this, of "ids @ [rowid]" g2] obtain t' new g' where
    r: "tags_loop names (t1, (ids @ [rowid]), g2) = Inr (t', (ids @ [rowid]) @ new, g')"
       "length new = length names"
       "map t_name (tags t') = map t_name (tags t1) @ names"
       "t' = t1\<lparr>tags := tags t'\<rparr>"
    by blast
  show ?case
  proof (intro exI[of _ t'] exI[of _ "rowid # new"] exI[of _ g'] conjI)
    show "tags_loop (name # names) (t, ids, g) = Inr (t', ids @ rowid # new, g')"
      using step r(1) by simp
    show "length (rowid # new) = length (name # names)" using r(2) by simp
    show "map t_name (tags t') = map t_name (tags t) @ name # names"
      using r(3) by (simp add: t1_def)
    show "t' = t\<lparr>tags := tags t'\<rparr>"
      using r(4) by (simp add: t1_def)
  qed
qed

lemma create_tags_fresh:
  "\<exists>c' tag_ids g'. create_tags NUM_TAGS fresh g = Inr (c', tag_ids, g')
     \<and> length tag_ids = 49 \<and> map t_name (tags (live c')) = TAG_NAMES
     \<and> live c' = empty_tables\<lparr>tags := tags (live c')\<rparr> \<and> disk c' = live c'"
proof -
  have tk: "take NUM_TAGS TAG_NAMES = TAG_NAMES"
    by (simp add: NUM_TAGS_def length_TAG_NAMES)
  from tags_loop_ok[OF distinct_TAG_NAMES, of empty_tables "[]" g]
  obtain t' new g' where
    r: "tags_loop TAG_NAMES (empty_tables, [], g) = Inr (t', new, g')"
       "length new = length TAG_NAMES"
       "map t_name (tags t') = TAG_NAMES"
       "t' = empty_tables\<lparr>tags := tags t'\<rparr>"
    by (auto simp: empty_tables_def)
  have "create_tags NUM_TAGS fresh g = Inr (commit (fresh\<lparr>live := t'\<rparr>), new, g')"
    by (simp add: create_tags_def tk fresh_def r(1))
  with r show ?thesis
    by (simp add: commit_def length_TAG_NAMES)
qed

subsection \<open>create\_feeds\<close>

lemma randint_bounds:
  assumes "a \<le> b" "randint a b g = (x, g')"
  shows "a \<le> x \<and> x \<le> b"
proof -
  obtain r g1 where d: "draw g = (r, g1)" by (cases "draw g")
  from assms(1) have "r mod nat (b - a + 1) < nat (b - a + 1)"
    by simp
  then have "int (r mod nat (b - a + 1)) < b - a + 1"
    by linarith
  with assms(2) d show ?thesis
    by (auto simp: randint_def)
qed

lemma nth_notin_rest:
  assumes "distinct xs" "j < length xs"
  shows "xs ! j \<notin> set (take j xs @ drop (Suc j) xs) \<and> distinct (take j xs @ drop (Suc j) xs)"
proof -
  from assms(2) have "xs = take j xs @ xs ! j # drop (Suc j) xs"
    by (rule id_take_nth_drop)
  with assms(1) have "distinct (take j xs @ xs ! j # drop (Suc j) xs)" by simp
  then show ?thesis by auto
qed

lemma sample_props:
  "k \<le> length xs \<Longrightarrow> sample xs k g = (ys, g') \<Longrightarrow>
     length ys = k \<and> set ys \<subseteq> set xs \<and> (distinct xs \<longrightarrow> distinct ys)"
proof (induction k arbitrary: xs g ys g')
  case 0
  then show ?case by simp
next
  case (Suc k)
  obtain r g1 where d: "draw g = (r, g1)" by (cases "draw g")
  define j where "j = r mod length xs"
  define rest where "rest = take j xs @ drop (Suc j) xs"
  obtain zs g2 where s: "sample rest k g1 = (zs, g2)" by (cases "sample rest k g1")
  from Suc.prems(1) have "0 < length xs" by linarith
  then have j: "j < length xs" unfolding j_def by (rule mod_less_divisor)
  then have len: "k \<le> length rest" using Suc.prems(1) by (simp add: rest_def)
  from Suc.prems(2) d s have ys: "ys = xs ! j # zs"
    by (simp add: j_def rest_def)
  from Suc.IH[OF len s] have ih: "length zs = k" "set zs \<subseteq> set rest" "distinct rest \<longrightarrow> distinct zs"
    by auto
  have sub: "set rest \<subseteq> set xs"
    by (auto simp: rest_def dest: in_set_takeD in_set_dropD)
  have "distinct ys" if dx: "distinct xs"
  proof -
    from nth_notin_rest[OF dx j] have "distinct rest" "xs ! j \<notin> set rest"
      by (simp_all add: rest_def)
    with ih(2,3) have "distinct zs" "xs ! j \<notin> set zs" by auto
    then show ?thesis by (simp add: ys)
  qed
  with ih sub j show ?case by (auto simp: ys)
qed

lemma set_add_feed_tags: "set (add_feed_tags f sel tb) = set tb \<union> Pair f ` set sel"
  by (induction sel arbitrary: tb) auto

lemma distinct_add_feed_tags: "distinct tb \<Longrightarrow> distinct (add_feed_tags f sel tb)"
  by (induction sel arbitrary: tb) auto

lemma add_feed_tags_new:
  "distinct sel \<Longrightarrow> \<forall>tg\<in>set sel. (f, tg) \<notin> set tb \<Longrightarrow>
     add_feed_tags f sel tb = tb @ map (Pair f) sel"
proof (induction sel arbitrary: tb)
  case Nil
  then show ?case by simp
next
  case (Cons tg sel)
  from Cons.prems have n: "(f, tg) \<notin> set tb" by simp
  from Cons.prems have "distinct sel" "\<forall>x\<in>set sel. (f, x) \<notin> set (tb @ [(f, tg)])" by auto
  from Cons.IH[OF this] n show ?case by simp
qed

lemma add_feed_tags_fresh:
  "distinct sel \<Longrightarrow> f \<notin> fst ` set tb \<Longrightarrow> add_feed_tags f sel tb = tb @ map (Pair f) sel"
  by (rule add_feed_tags_new) force+

lemma fold_insert_or_ignore:
  "fold (\<lambda>tag_id. insert_or_ignore_feed_tag (f, tag_id)) sel t
     = t\<lparr>feed_tags := add_feed_tags f sel (feed_tags t)\<rparr>"
  by (induction sel arbitrary: t) (auto simp: insert_or_ignore_feed_tag_def)

lemma selected_tags_props:
  assumes "selected_tags tag_ids g = (sel, g')"
  shows "length sel \<le> 5 \<and> length sel \<le> length tag_ids \<and> set sel \<subseteq> set tag_ids
     \<and> (distinct tag_ids \<longrightarrow> distinct sel)"
proof -
  obtain num_tags g1 where r: "randint 0 5 g = (num_tags, g1)" by (cases "randint 0 5 g")
  from randint_bounds[OF _ r] have nt: "0 \<le> num_tags" "num_tags \<le> 5" by auto
  show ?thesis
  proof (cases "num_tags > 0 \<and> tag_ids \<noteq> []")
    case True
    with assms r have "sample tag_ids (min (nat num_tags) (length tag_ids)) g1 = (sel, g')"
      by (simp add: selected_tags_def)
    from sample_props[OF _ this] nt show ?thesis by auto
  next
    case False
    with assms r have "sel = []" by (auto simp: selected_tags_def)
    then show ?thesis by simp
  qed
qed

lemma create_feed_eq:
  assumes "feed_values now i g = (row, g1)" "selected_tags tag_ids g1 = (sel, g2)"
  shows "create_feed tag_ids now i (t, ids, g)
       = (t\<lparr>feeds := feeds t @ [row\<lparr>f_id := next_id (map f_id (feeds t))\<rparr>],
            feed_tags := add_feed_tags (next_id (map f_id (feeds t))) sel (feed_tags t)\<rparr>,
          ids @ [next_id (map f_id (feeds t))], g2)"
  by (simp add: create_feed_def assms insert_feed_def Let_def fold_insert_or_ignore)

lemma create_feed_step:
  "\<exists>row sel g'.
     create_feed tag_ids now i (t, ids, g)
       = (t\<lparr>feeds := feeds t @ [row],
            feed_tags := add_feed_tags (f_id row) sel (feed_tags t)\<rparr>, ids @ [f_id row], g')
     \<and> f_id row = next_id (map f_id (feeds t))
     \<and> length sel \<le> 5 \<and> set sel \<subseteq> set tag_ids \<and> (distinct tag_ids \<longrightarrow> distinct sel)"
proof -
  obtain row g1 where v: "feed_values now i g = (row, g1)" by (cases "feed_values now i g")
  obtain sel g2 where s: "selected_tags tag_ids g1 = (sel, g2)" by (cases "selected_tags tag_ids g1")
  from create_feed_eq[OF v s, of t ids] selected_tags_props[OF s] show ?thesis
    by (intro exI[of _ "row\<lparr>f_id := next_id (map f_id (feeds t))\<rparr>"] exI[of _ sel] exI[of _ g2]) simp
qed

lemma feeds_loop_inv:
  assumes "set tag_ids \<subseteq> T"
    and "\<forall>p\<in>set (feed_tags t). fst p \<in> f_id ` set (feeds t) \<and> snd p \<in> T"
    and "distinct (feed_tags t)"
    and "fold (create_feed tag_ids now) is (t, ids, g) = (t', ids', g')"
  shows "(\<forall>p\<in>set (feed_tags t'). fst p \<in> f_id ` set (feeds t') \<and> snd p \<in> T)
     \<and> distinct (feed_tags t')
     \<and> t' = t\<lparr>feeds := feeds t', feed_tags := feed_tags t'\<rparr>
     \<and> length ids' = length ids + length is
     \<and> length (feeds t') = length (feeds t) + length is"
  using assms(2-)
proof (induction "is" arbitrary: t ids g)
  case Nil
  then show ?case by simp
next
  case (Cons i "is")
  from create_feed_step[of tag_ids now i t ids g] obtain row sel g1 where
    st: "create_feed tag_ids now i (t, ids, g)
       = (t\<lparr>feeds := feeds t @ [row],
            feed_tags := add_feed_tags (f_id row) sel (feed_tags t)\<rparr>, ids @ [f_id row], g1)"
    and sel: "set sel \<subseteq> set tag_ids"
    by blast
  define t1 where "t1 = t\<lparr>feeds := feeds t @ [row],
            feed_tags := add_feed_tags (f_id row) sel (feed_tags t)\<rparr>"
  have a: "\<forall>p\<in>set (feed_tags t1). fst p \<in> f_id ` set (feeds t1) \<and> snd p \<in> T"
    using Cons.prems(1) sel assms(1) by (auto simp: t1_def set_add_feed_tags)
  have b: "distinct (feed_tags t1)"
    using Cons.prems(2) by (simp add: t1_def distinct_add_feed_tags)
  have c: "fold (create_feed tag_ids now) is (t1, ids @ [f_id row], g1) = (t', ids', g')"
    using Cons.prems(3) st by (simp add: t1_def)
  from Cons.IH[OF a b c] show ?case
    by (simp add: t1_def)
qed

lemma samples_props:
  "length (samples tag_ids now is g) = length is
   \<and> (\<forall>sel\<in>set (samples tag_ids now is g).
         length sel \<le> 5 \<and> length sel \<le> length tag_ids \<and> set sel \<subseteq> set tag_ids
         \<and> (distinct tag_ids \<longrightarrow> distinct sel))"
proof (induction "is" arbitrary: g)
  case Nil
  then show ?case by simp
next
  case (Cons i "is")
  obtain row g1 where v: "feed_values now i g = (row, g1)" by (cases "feed_values now i g")
  obtain sel g2 where s: "selected_tags tag_ids g1 = (sel, g2)" by (cases "selected_tags tag_ids g1")
  have "samples tag_ids now (i # is) g = sel # samples tag_ids now is g2"
    by (simp add: v s)
  with selected_tags_props[OF s] Cons.IH[of g2] show ?case by simp
qed

lemma feeds_loop_samples:
  "fold (create_feed tag_ids now) is (t, ids, g) = (t', ids', g') \<Longrightarrow>
   \<exists>new. ids' = ids @ new \<and> length new = length is
     \<and> map f_id (feeds t') = map f_id (feeds t) @ new
     \<and> feed_tags t' = foldl (\<lambda>tb (f, sel). add_feed_tags f sel tb) (feed_tags t)
                        (zip new (samples tag_ids now is g))"
proof (induction "is" arbitrary: t ids g)
  case Nil
  then show ?case by simp
next
  case (Cons i "is")
  obtain row g1 where v: "feed_values now i g = (row, g1)" by (cases "feed_values now i g")
  obtain sel g2 where s: "selected_tags tag_ids g1 = (sel, g2)" by (cases "selected_tags tag_ids g1")
  define rowid where "rowid = next_id (map f_id (feeds t))"
  define t1 where "t1 = t\<lparr>feeds := feeds t @ [row\<lparr>f_id := rowid\<rparr>],
            feed_tags := add_feed_tags rowid sel (feed_tags t)\<rparr>"
  have "fold (create_feed tag_ids now) is (t1, ids @ [rowid], g2) = (t', ids', g')"
    using Cons.prems create_feed_eq[OF v s, of t ids] by (simp add: t1_def rowid_def)
  from Cons.IH[OF this] obtain new where
    r: "ids' = (ids @ [rowid]) @ new" "length new = length is"
       "map f_id (feeds t') = map f_id (feeds t1) @ new"
       "feed_tags t' = foldl (\<lambda>tb (f, sel). add_feed_tags f sel tb) (feed_tags t1)
                        (zip new (samples tag_ids now is g2))"
    by blast
  have sm: "samples tag_ids now (i # is) g = sel # samples tag_ids now is g2"
    by (simp add: v s)
  show ?case
  proof (intro exI[of _ "rowid # new"] conjI)
    show "ids' = ids @ rowid # new" using r(1) by simp
    show "length (rowid # new) = length (i # is)" using r(2) by simp
    show "map f_id (feeds t') = map f_id (feeds t) @ rowid # new"
      using r(3) by (simp add: t1_def)
    show "feed_tags t' = foldl (\<lambda>tb (f, sel). add_feed_tags f sel tb) (feed_tags t)
                        (zip (rowid # new) (samples tag_ids now (i # is) g))"
      unfolding sm using r(4) by (simp add: t1_def)
  qed
qed

lemma feeds_loop_sampled_rows:
  assumes "distinct tag_ids"
    and "\<forall>p\<in>set (feed_tags t). fst p \<in> f_id ` set (feeds t)"
    and "fold (create_feed tag_ids now) is (t, ids, g) = (t', ids', g')"
  shows "feed_tags t' = feed_tags t
           @ concat (map2 (\<lambda>f sel. map (Pair f) sel) (drop (length ids) ids')
                       (samples tag_ids now is g))"
  using assms(2,3)
proof (induction "is" arbitrary: t ids g)
  case Nil
  then show ?case by simp
next
  case (Cons i "is")
  obtain row g1 where v: "feed_values now i g = (row, g1)" by (cases "feed_values now i g")
  obtain sel g2 where s: "selected_tags tag_ids g1 = (sel, g2)" by (cases "selected_tags tag_ids g1")
  define rowid where "rowid = next_id (map f_id (feeds t))"
  from selected_tags_props[OF s] assms(1) have d: "distinct sel" by simp
  have "rowid \<notin> f_id ` set (feeds t)"
    using next_id_fresh[of "map f_id (feeds t)"] by (simp add: rowid_def)
  with Cons.prems(1) have "rowid \<notin> fst ` set (feed_tags t)" by auto
  from add_feed_tags_fresh[OF d this]
  have ft: "add_feed_tags rowid sel (feed_tags t) = feed_tags t @ map (Pair rowid) sel" .
  define t1 where "t1 = t\<lparr>feeds := feeds t @ [row\<lparr>f_id := rowid\<rparr>],
            feed_tags := feed_tags t @ map (Pair rowid) sel\<rparr>"
  have a: "\<forall>p\<in>set (feed_tags t1). fst p \<in> f_id ` set (feeds t1)"
    using Cons.prems(1) by (auto simp: t1_def)
  have f: "fold (create_feed tag_ids now) is (t1, ids @ [rowid], g2) = (t', ids', g')"
    using Cons.prems(2) create_feed_eq[OF v s, of t ids] ft by (simp add: t1_def rowid_def)
  from feeds_loop_samples[OF f] obtain new where n: "ids' = (ids @ [rowid]) @ new" by blast
  have sm: "samples tag_ids now (i # is) g = sel # samples tag_ids now is g2"
    by (simp add: v s)
  from Cons.IH[OF a f] show ?case
    unfolding sm by (simp add: n t1_def)
qed

lemma tags_loop_ids:
  "tags_loop names (t, ids, g) = Inr (t', ids', g') \<Longrightarrow>
   \<exists>new. ids' = ids @ new \<and> distinct new \<and> set new \<subseteq> t_id ` set (tags t')
     \<and> set new \<inter> t_id ` set (tags t) = {} \<and> set (tags t) \<subseteq> set (tags t')"
proof (induction names arbitrary: t ids g)
  case Nil
  then show ?case by simp
next
  case (Cons name names)
  obtain color g1 where p1: "pick COLORS g = (color, g1)" by (cases "pick COLORS g")
  obtain style g2 where p2: "pick STYLES g1 = (style, g2)" by (cases "pick STYLES g1")
  define rowid where "rowid = next_id (map t_id (tags t))"
  define t1 where "t1 = t\<lparr>tags := tags t @
                  [\<lparr>t_id = rowid, t_name = name, t_color = color, t_style = style\<rparr>]\<rparr>"
  have fresh: "rowid \<notin> t_id ` set (tags t)"
    using next_id_fresh[of "map t_id (tags t)"] by (simp add: rowid_def)
  from Cons.prems have "tags_loop names (t1, ids @ [rowid], g2) = Inr (t', ids', g')"
    by (auto simp: p1 p2 insert_tag_def Let_def rowid_def t1_def split: if_splits)
  from Cons.IH[OF this] obtain new where
    r: "ids' = (ids @ [rowid]) @ new" "distinct new" "set new \<subseteq> t_id ` set (tags t')"
       "set new \<inter> t_id ` set (tags t1) = {}" "set (tags t1) \<subseteq> set (tags t')"
    by blast
  from r(4) have nr: "rowid \<notin> set new" "set new \<inter> t_id ` set (tags t) = {}"
    by (auto simp: t1_def)
  from r(5) have in': "rowid \<in> t_id ` set (tags t')" "set (tags t) \<subseteq> set (tags t')"
    by (force simp: t1_def)+
  show ?case
    by (intro exI[of _ "rowid # new"]) (use r(1,2,3) nr in' fresh in auto)
qed

lemma create_tags_ids:
  assumes "create_tags k c0 g0 = Inr (c, tag_ids, g)"
  shows "distinct tag_ids \<and> set tag_ids \<subseteq> t_id ` set (tags (live c))"
proof -
  from assms obtain t where
    l: "tags_loop (take k TAG_NAMES) (live c0, [], g0) = Inr (t, tag_ids, g)"
    and c: "c = commit (c0\<lparr>live := t\<rparr>)"
    by (auto simp: create_tags_def split: sum.splits)
  from tags_loop_ids[OF l] c show ?thesis
    by (auto simp: commit_def)
qed

subsection \<open>create\_articles\<close>

lemma article_of_simps:
  "a_id (article_of r v) = r"
  "a_feed_id (article_of r v) = a_feed_id v"
  "a_title (article_of r v) = a_title v"
  "a_content (article_of r v) = a_content v"
  "a_summary (article_of r v) = a_summary v"
  "a_author (article_of r v) = a_author v"
  "a_published_at (article_of r v) = a_published_at v"
  "a_created_at (article_of r v) = a_created_at v"
  "article_values.truncate (article_of r v) = v"
  by (simp_all add: article_of_def article_values.defs)

lemma add_articles_append:
  "add_articles (xs @ ys) rs = add_articles ys (add_articles xs rs)"
  by (induction xs arbitrary: rs) auto

lemma add_articles_new:
  "\<exists>new. add_articles vs rs = rs @ new \<and> map article_values.truncate new = vs
      \<and> (distinct (map a_id rs) \<longrightarrow> distinct (map a_id (rs @ new)))"
proof (induction vs arbitrary: rs)
  case Nil
  then show ?case by simp
next
  case (Cons v vs)
  define row where "row = article_of (next_id (map a_id rs)) v"
  from Cons[of "rs @ [row]"] obtain new where
    n: "add_articles vs (rs @ [row]) = (rs @ [row]) @ new" "map article_values.truncate new = vs"
       "distinct (map a_id (rs @ [row])) \<longrightarrow> distinct (map a_id ((rs @ [row]) @ new))"
    by blast
  have "distinct (map a_id (rs @ [row]))" if "distinct (map a_id rs)"
    using that next_id_fresh[of "map a_id rs"] by (simp add: row_def article_of_simps)
  with n show ?case
    by (intro exI[of _ "row # new"]) (simp add: row_def article_of_simps)
qed

lemma length_add_articles: "length (add_articles vs rs) = length rs + length vs"
  by (induction vs arbitrary: rs) auto

lemma executemany_articles_off:
  "\<not> trg_insert t \<Longrightarrow> executemany_articles vs t = Inr (t\<lparr>articles := add_articles vs (articles t)\<rparr>)"
  by (induction vs arbitrary: t) (auto simp: insert_article_def Let_def)

lemma gen_article_ok:
  assumes "feed_ids \<noteq> []"
  shows "\<exists>v g'. gen_article feed_ids now i g = Inr (v, g')
     \<and> (\<exists>m. 1 \<le> m \<and> m \<le> 60 \<and> a_created_at v = a_published_at v + timedelta 0 0 m)"
proof -
  obtain feed_id g1 where 1: "pick feed_ids g = (feed_id, g1)" by (cases "pick feed_ids g")
  obtain n g2 where 2: "randint 4 10 g1 = (n, g2)" by (cases "randint 4 10 g1")
  obtain ws g3 where 3: "lorem_words (nat n) g2 = (ws, g3)" by (cases "lorem_words (nat n) g2")
  obtain guid g4 where 4: "uuid4 g3 = (guid, g4)" by (cases "uuid4 g3")
  obtain k g5 where 5: "randint 2 6 g4 = (k, g5)" by (cases "randint 2 6 g4")
  obtain content g6 where 6: "lorem_paragraphs (nat k) g5 = (content, g6)" by (cases "lorem_paragraphs (nat k) g5")
  obtain summary g7 where 7: "lorem_paragraph g6 = (summary, g7)" by (cases "lorem_paragraph g6")
  obtain aw g8 where 8: "lorem_words 2 g7 = (aw, g8)" by (cases "lorem_words 2 g7")
  obtain days g9 where 9: "randint 0 365 g8 = (days, g9)" by (cases "randint 0 365 g8")
  obtain hours g10 where 10: "randint 0 23 g9 = (hours, g10)" by (cases "randint 0 23 g9")
  obtain minutes g11 where 11: "randint 0 59 g10 = (minutes, g11)" by (cases "randint 0 59 g10")
  obtain is_read g12 where 12: "random_lt 30 g11 = (is_read, g12)" by (cases "random_lt 30 g11")
  obtain is_starred g13 where 13: "random_lt 5 g12 = (is_starred, g13)" by (cases "random_lt 5 g12")
  obtain offset g14 where 14: "randint 1 60 g13 = (offset, g14)" by (cases "randint 1 60 g13")
  from randint_bounds[OF _ 14] have off: "1 \<le> offset" "offset \<le> 60" by auto
  have "\<exists>v. gen_article feed_ids now i g = Inr (v, g14)
      \<and> a_created_at v = a_published_at v + timedelta 0 0 offset"
    using assms by (simp add: gen_article_def choice_def Let_def 1 2 3 4 5 6 7 8 9 10 11 12 13 14)
  with off show ?thesis by blast
qed

lemma gen_article_empty: "gen_article [] now i g = Inl IndexError"
  by (simp add: gen_article_def choice_def)

lemma articles_loop_ok:
  assumes "feed_ids \<noteq> []"
  shows "\<not> trg_insert (live c) \<Longrightarrow> length batch < batch_size \<Longrightarrow> disk c = live c \<Longrightarrow>
   \<exists>c' batch' g' vs.
       articles_loop feed_ids now is (c, batch, g) = Inr (c', batch', g')
     \<and> length vs = length is
     \<and> (\<forall>v\<in>set vs. \<exists>m. 1 \<le> m \<and> m \<le> 60 \<and> a_created_at v = a_published_at v + timedelta 0 0 m)
     \<and> add_articles batch' (articles (live c')) = add_articles (batch @ vs) (articles (live c))
     \<and> length batch' = (length batch + length is) mod batch_size
     \<and> length (articles (live c'))
          = length (articles (live c)) + ((length batch + length is) div batch_size) * batch_size
     \<and> live c' = (live c)\<lparr>articles := articles (live c')\<rparr>
     \<and> disk c' = live c'"
proof (induction "is" arbitrary: c batch g)
  case Nil
  then show ?case
    by (intro exI[of _ c] exI[of _ batch] exI[of _ g] exI[of _ "[]"]) simp
next
  case (Cons i "is")
  from gen_article_ok[OF assms, of now i g] obtain v g1 where
    gen: "gen_article feed_ids now i g = Inr (v, g1)"
    and off: "\<exists>m. 1 \<le> m \<and> m \<le> 60 \<and> a_created_at v = a_published_at v + timedelta 0 0 m"
    by blast
  show ?case
  proof (cases "length (batch @ [v]) \<ge> batch_size")
    case True
    with Cons.prems(2) have lb: "Suc (length batch) = batch_size" by simp
    define c1 where "c1 = commit (c\<lparr>live := (live c)\<lparr>articles := add_articles (batch @ [v]) (articles (live c))\<rparr>\<rparr>)"
    have step: "articles_loop feed_ids now (i # is) (c, batch, g) = articles_loop feed_ids now is (c1, [], g1)"
      using True Cons.prems(1) by (simp add: gen executemany_articles_off c1_def)
    have p: "\<not> trg_insert (live c1)" "length ([]::article_values list) < batch_size" "disk c1 = live c1"
      using Cons.prems(1) by (simp_all add: c1_def commit_def batch_size_def)
    from Cons.IH[OF p, of g1] obtain c' batch' g' vs where
      r: "articles_loop feed_ids now is (c1, [], g1) = Inr (c', batch', g')"
         "length vs = length is"
         "\<forall>v\<in>set vs. \<exists>m. 1 \<le> m \<and> m \<le> 60 \<and> a_created_at v = a_published_at v + timedelta 0 0 m"
         "add_articles batch' (articles (live c')) = add_articles ([] @ vs) (articles (live c1))"
         "length batch' = (length ([]::article_values list) + length is) mod batch_size"
         "length (articles (live c'))
            = length (articles (live c1)) + ((length ([]::article_values list) + length is) div batch_size) * batch_size"
         "live c' = (live c1)\<lparr>articles := articles (live c')\<rparr>"
         "disk c' = live c'"
      by blast
    have a1: "articles (live c1) = add_articles (batch @ [v]) (articles (live c))"
      by (simp add: c1_def commit_def)
    show ?thesis
    proof (rule exI[of _ c'], rule exI[of _ batch'], rule exI[of _ g'], rule exI[of _ "v # vs"], intro conjI)
      show "articles_loop feed_ids now (i # is) (c, batch, g) = Inr (c', batch', g')"
        using step r(1) by simp
      show "length (v # vs) = length (i # is)" using r(2) by simp
      show "\<forall>v\<in>set (v # vs). \<exists>m. 1 \<le> m \<and> m \<le> 60 \<and> a_created_at v = a_published_at v + timedelta 0 0 m"
        using r(3) off by simp
      show "add_articles batch' (articles (live c')) = add_articles (batch @ v # vs) (articles (live c))"
        using r(4) a1 add_articles_append[of "batch @ [v]" vs "articles (live c)"] by simp
      have e: "length batch + length (i # is) = batch_size + length is" using lb by simp
      show "length batch' = (length batch + length (i # is)) mod batch_size"
        unfolding e using r(5) by simp
      show "length (articles (live c'))
          = length (articles (live c)) + ((length batch + length (i # is)) div batch_size) * batch_size"
      proof -
        have "batch_size \<noteq> 0" by (simp add: batch_size_def)
        then have "(batch_size + length is) div batch_size = length is div batch_size + 1"
          by (rule div_add_self1)
        then show ?thesis
          unfolding e using r(6) lb by (simp add: a1 length_add_articles)
      qed
      show "live c' = (live c)\<lparr>articles := articles (live c')\<rparr>"
        using r(7) by (simp add: c1_def commit_def)
      show "disk c' = live c'" by (rule r(8))
    qed
  next
    case False
    then have lb: "length (batch @ [v]) < batch_size" by simp
    have step: "articles_loop feed_ids now (i # is) (c, batch, g) = articles_loop feed_ids now is (c, batch @ [v], g1)"
      using False by (simp add: gen)
    from Cons.IH[OF Cons.prems(1) lb Cons.prems(3), of g1] obtain c' batch' g' vs where
      r: "articles_loop feed_ids now is (c, batch @ [v], g1) = Inr (c', batch', g')"
         "length vs = length is"
         "\<forall>v\<in>set vs. \<exists>m. 1 \<le> m \<and> m \<le> 60 \<and> a_created_at v = a_published_at v + timedelta 0 0 m"
         "add_articles batch' (articles (live c')) = add_articles ((batch @ [v]) @ vs) (articles (live c))"
         "length batch' = (length (batch @ [v]) + length is) mod batch_size"
         "length (articles (live c'))
            = length (articles (live c)) + ((length (batch @ [v]) + length is) div batch_size) * batch_size"
         "live c' = (live c)\<lparr>articles := articles (live c')\<rparr>"
         "disk c' = live c'"
      by blast
    show ?thesis
    proof (rule exI[of _ c'], rule exI[of _ batch'], rule exI[of _ g'], rule exI[of _ "v # vs"], intro conjI)
      show "articles_loop feed_ids now (i # is) (c, batch, g) = Inr (c', batch', g')"
        using step r(1) by simp
      show "\<forall>v\<in>set (v # vs). \<exists>m. 1 \<le> m \<and> m \<le> 60 \<and> a_created_at v = a_published_at v + timedelta 0 0 m"
        using r(3) off by simp
    qed (use r in simp_all)
  qed
qed

lemma load_articles_ok:
  assumes "feed_ids \<noteq> []" "\<not> trg_insert (live c)" "disk c = live c"
  shows "\<exists>c' g' vs.
       load_articles k c feed_ids now g = Inr (c', g')
     \<and> length vs = k
     \<and> (\<forall>v\<in>set vs. \<exists>m. 1 \<le> m \<and> m \<le> 60 \<and> a_created_at v = a_published_at v + timedelta 0 0 m)
     \<and> articles (live c') = add_articles vs (articles (live c))
     \<and> live c' = (live c)\<lparr>articles := articles (live c')\<rparr>
     \<and> disk c' = live c'"
proof -
  have "length ([]::article_values list) < batch_size" by (simp add: batch_size_def)
  from articles_loop_ok[OF assms(1,2) this assms(3), of now "[0..<k]" g]
  obtain c1 batch g1 vs where
    r: "articles_loop feed_ids now [0..<k] (c, [], g) = Inr (c1, batch, g1)"
       "length vs = k"
       "\<forall>v\<in>set vs. \<exists>m. 1 \<le> m \<and> m \<le> 60 \<and> a_created_at v = a_published_at v + timedelta 0 0 m"
       "add_articles batch (articles (live c1)) = add_articles vs (articles (live c))"
       "live c1 = (live c)\<lparr>articles := articles (live c1)\<rparr>"
       "disk c1 = live c1"
    by auto
  have t1: "\<not> trg_insert (live c1)"
    using arg_cong[OF r(5), of trg_insert] assms(2) by simp
  show ?thesis
  proof (cases "batch = []")
    case True
    then have "load_articles k c feed_ids now g = Inr (c1, g1)"
      by (simp add: load_articles_def r(1))
    with r True show ?thesis by auto
  next
    case False
    define c2 where "c2 = commit (c1\<lparr>live := (live c1)\<lparr>articles := add_articles batch (articles (live c1))\<rparr>\<rparr>)"
    from False have "load_articles k c feed_ids now g = Inr (c2, g1)"
      by (simp add: load_articles_def r(1) executemany_articles_off[OF t1] c2_def)
    moreover have "articles (live c2) = add_articles vs (articles (live c))"
      using r(4) by (simp add: c2_def commit_def)
    moreover have "live c2 = (live c)\<lparr>articles := articles (live c2)\<rparr>"
      using arg_cong[OF r(5), of "\<lambda>t. t\<lparr>articles := add_articles batch (articles (live c1))\<rparr>"]
      by (simp add: c2_def commit_def)
    moreover have "disk c2 = live c2" by (simp add: c2_def commit_def)
    ultimately show ?thesis using r(2,3) by blast
  qed
qed

lemma articles_loop_no_feeds:
  "is \<noteq> [] \<Longrightarrow> articles_loop [] now is s = Inl IndexError"
  by (cases "is"; cases s) (simp_all add: gen_article_empty)

lemma load_articles_returns:
  assumes "load_articles k c feed_ids now g = Inr (c', g')" "\<not> trg_insert (live c)" "disk c = live c"
  shows "\<exists>vs. length vs = k
     \<and> (\<forall>v\<in>set vs. \<exists>m. 1 \<le> m \<and> m \<le> 60 \<and> a_created_at v = a_published_at v + timedelta 0 0 m)
     \<and> articles (live c') = add_articles vs (articles (live c))
     \<and> live c' = (live c)\<lparr>articles := articles (live c')\<rparr>
     \<and> disk c' = live c'"
proof (cases "feed_ids = []")
  case False
  from load_articles_ok[OF False assms(2,3), of k now g] assms(1) show ?thesis by auto
next
  case True
  have "k = 0"
  proof (rule ccontr)
    assume "k \<noteq> 0"
    then have "[0..<k] \<noteq> []" by simp
    from articles_loop_no_feeds[OF this] assms(1) True show False
      by (simp add: load_articles_def)
  qed
  with assms(1) have "c' = c" by (simp add: load_articles_def)
  with \<open>k = 0\<close> assms(3) show ?thesis by (intro exI[of _ "[]"]) simp
qed

lemma fts_insert_all_result:
  "fts_insert_all rs t = Inr t' \<Longrightarrow> t' = t\<lparr>articles_fts := articles_fts t @ rs\<rparr>"
proof (induction rs arbitrary: t)
  case Nil
  then show ?case by simp
next
  case (Cons r rs)
  from Cons.prems have "fts_insert_all rs (t\<lparr>articles_fts := articles_fts t @ [r]\<rparr>) = Inr t'"
    by (auto simp: fts_insert_def split: if_splits)
  from Cons.IH[OF this] show ?case by simp
qed

lemma fts_insert_all_error:
  "fts_insert_all rs t = Inl e \<Longrightarrow> e = IntegrityError"
  by (induction rs arbitrary: t) (auto simp: fts_insert_def split: if_splits)

lemma fts_insert_all_ok:
  "distinct (map fts_rowid rs) \<Longrightarrow> fts_rowid ` set rs \<inter> fts_rowid ` set (articles_fts t) = {} \<Longrightarrow>
     fts_insert_all rs t = Inr (t\<lparr>articles_fts := articles_fts t @ rs\<rparr>)"
proof (induction rs arbitrary: t)
  case Nil
  then show ?case by simp
next
  case (Cons r rs)
  from Cons.prems have 1: "fts_insert r t = Inr (t\<lparr>articles_fts := articles_fts t @ [r]\<rparr>)"
    by (auto simp: fts_insert_def)
  from Cons.prems have 2: "distinct (map fts_rowid rs)"
    "fts_rowid ` set rs \<inter> fts_rowid ` set (articles_fts (t\<lparr>articles_fts := articles_fts t @ [r]\<rparr>)) = {}"
    by auto
  from Cons.IH[OF 2] 1 show ?case by simp
qed

lemma fts_rowid_fts_of: "map fts_rowid (map fts_of as) = map a_id as"
  by (simp add: fts_of_def)

lemma fts_populate_ok:
  "articles_fts t = [] \<Longrightarrow> distinct (map a_id (articles t)) \<Longrightarrow>
     fts_populate t = Inr (t\<lparr>articles_fts := map fts_of (articles t)\<rparr>)"
  using fts_insert_all_ok[of "map fts_of (articles t)" t]
  by (simp add: fts_populate_def fts_rowid_fts_of del: map_map)

lemma fts_populate_conflict:
  assumes "articles t \<noteq> []" "a_id ` set (articles t) \<subseteq> fts_rowid ` set (articles_fts t)"
  shows "fts_populate t = Inl IntegrityError"
proof -
  from assms(1) obtain a as where a: "articles t = a # as" by (cases "articles t") auto
  with assms(2) have "fts_rowid (fts_of a) \<in> fts_rowid ` set (articles_fts t)"
    by (simp add: fts_of_def)
  then show ?thesis
    by (simp add: fts_populate_def a fts_insert_def)
qed

lemma fts_rebuild_ok:
  assumes "articles_fts (live c) = []" "distinct (map a_id (articles (live c)))"
  shows "\<exists>c'. fts_rebuild c = (c', None)
     \<and> live c' = (live c)\<lparr>articles_fts := map fts_of (articles (live c)),
                           trg_insert := True, trg_delete := True, trg_update := True\<rparr>
     \<and> disk c' = live c'"
  using fts_populate_ok[OF assms]
  by (simp add: fts_rebuild_def commit_def fts_create_triggers_def Let_def)

lemma fts_rebuild_returns:
  assumes "fts_rebuild c = (c', None)"
  shows "live c' = (live c)\<lparr>articles_fts := articles_fts (live c) @ map fts_of (articles (live c)),
                           trg_insert := True, trg_delete := True, trg_update := True\<rparr>
     \<and> disk c' = live c'"
proof (cases "fts_populate (live c)")
  case (Inl e)
  with assms show ?thesis by (simp add: fts_rebuild_def)
next
  case (Inr t)
  then have "t = (live c)\<lparr>articles_fts := articles_fts (live c) @ map fts_of (articles (live c))\<rparr>"
    unfolding fts_populate_def by (rule fts_insert_all_result)
  with assms Inr show ?thesis
    by (auto simp: fts_rebuild_def commit_def fts_create_triggers_def Let_def)
qed

lemma fts_rebuild_populated:
  assumes "a_id ` set (articles (live c)) \<subseteq> fts_rowid ` set (articles_fts (live c))"
  shows "(articles (live c) \<noteq> [] \<and> fts_rebuild c = (c, Some IntegrityError))
       \<or> (articles (live c) = []
           \<and> (\<exists>c'. fts_rebuild c = (c', None)
                 \<and> live c' = fts_create_triggers (live c) \<and> disk c' = live c'))"
proof (cases "articles (live c) = []")
  case True
  then have "fts_populate (live c) = Inr (live c)"
    by (simp add: fts_populate_def)
  with True show ?thesis
    by (simp add: fts_rebuild_def commit_def fts_create_triggers_def Let_def)
next
  case False
  from fts_populate_conflict[OF False assms] False show ?thesis
    by (simp add: fts_rebuild_def)
qed

lemma suspended:
  "\<not> trg_insert (live (commit (c\<lparr>live := fts_suspend (live c)\<rparr>)))"
  "disk (commit (c\<lparr>live := fts_suspend (live c)\<rparr>)) = live (commit (c\<lparr>live := fts_suspend (live c)\<rparr>))"
  "articles (live (commit (c\<lparr>live := fts_suspend (live c)\<rparr>))) = articles (live c)"
  "articles_fts (live (commit (c\<lparr>live := fts_suspend (live c)\<rparr>))) = articles_fts (live c)"
  by (simp_all add: commit_def fts_suspend_def)

lemma create_articles_ok:
  assumes "feed_ids \<noteq> []" "articles_fts (live c) = []" "distinct (map a_id (articles (live c)))"
  shows "\<exists>c' g' vs.
       create_articles k c feed_ids now g = Inr (c', g')
     \<and> length vs = k
     \<and> (\<forall>v\<in>set vs. \<exists>m. 1 \<le> m \<and> m \<le> 60 \<and> a_created_at v = a_published_at v + timedelta 0 0 m)
     \<and> articles (live c') = add_articles vs (articles (live c))
     \<and> articles_fts (live c') = map fts_of (articles (live c'))
     \<and> distinct (map a_id (articles (live c')))
     \<and> live c' = (live c)\<lparr>articles := articles (live c'), articles_fts := articles_fts (live c'),
                           trg_insert := True, trg_delete := True, trg_update := True\<rparr>
     \<and> disk c' = live c'"
proof -
  define c0 where "c0 = commit (c\<lparr>live := fts_suspend (live c)\<rparr>)"
  note s = suspended[of c, folded c0_def]
  from load_articles_ok[OF assms(1) s(1,2), of k now g] obtain c1 g1 vs where
    l: "load_articles k c0 feed_ids now g = Inr (c1, g1)" "length vs = k"
       "\<forall>v\<in>set vs. \<exists>m. 1 \<le> m \<and> m \<le> 60 \<and> a_created_at v = a_published_at v + timedelta 0 0 m"
       "articles (live c1) = add_articles vs (articles (live c0))"
       "live c1 = (live c0)\<lparr>articles := articles (live c1)\<rparr>"
    by blast
  have a1: "articles (live c1) = add_articles vs (articles (live c))"
    using l(4) s(3) by simp
  have f1: "articles_fts (live c1) = []"
    using arg_cong[OF l(5), of articles_fts] s(4) assms(2) by simp
  from add_articles_new[of vs "articles (live c)"] assms(3)
  have d1: "distinct (map a_id (articles (live c1)))"
    unfolding a1 by auto
  from fts_rebuild_ok[OF f1 d1] obtain c2 where
    r: "fts_rebuild c1 = (c2, None)"
       "live c2 = (live c1)\<lparr>articles_fts := map fts_of (articles (live c1)),
                           trg_insert := True, trg_delete := True, trg_update := True\<rparr>"
       "disk c2 = live c2"
    by blast
  have run: "create_articles k c feed_ids now g = Inr (c2, g1)"
    by (simp add: create_articles_def l(1)[unfolded c0_def] r(1))
  have a2: "articles (live c2) = articles (live c1)" "articles_fts (live c2) = map fts_of (articles (live c1))"
    using r(2) by simp_all
  have "live c2 = (live c)\<lparr>articles := articles (live c2), articles_fts := articles_fts (live c2),
                           trg_insert := True, trg_delete := True, trg_update := True\<rparr>"
    unfolding a2 r(2)
    using arg_cong[OF l(5), of "\<lambda>t. t\<lparr>articles_fts := map fts_of (articles (live c1)),
                           trg_insert := True, trg_delete := True, trg_update := True\<rparr>"]
    by (simp add: c0_def commit_def fts_suspend_def)
  with run l(2,3) a1 a2 d1 r(3) show ?thesis by auto
qed

lemma create_articles_returns:
  assumes "create_articles k c feed_ids now g = Inr (c', g')"
  shows "\<exists>vs. length vs = k
     \<and> (\<forall>v\<in>set vs. \<exists>m. 1 \<le> m \<and> m \<le> 60 \<and> a_created_at v = a_published_at v + timedelta 0 0 m)
     \<and> articles (live c') = add_articles vs (articles (live c))
     \<and> articles_fts (live c') = articles_fts (live c) @ map fts_of (articles (live c'))
     \<and> disk c' = live c'"
proof -
  define c0 where "c0 = commit (c\<lparr>live := fts_suspend (live c)\<rparr>)"
  note s = suspended[of c, folded c0_def]
  from assms obtain c1 where
    l: "load_articles k c0 feed_ids now g = Inr (c1, g')" and r: "fts_rebuild c1 = (c', None)"
    by (auto simp: create_articles_def c0_def split: sum.splits prod.splits option.splits)
  from load_articles_returns[OF l s(1,2)] obtain vs where
    v: "length vs = k"
       "\<forall>v\<in>set vs. \<exists>m. 1 \<le> m \<and> m \<le> 60 \<and> a_created_at v = a_published_at v + timedelta 0 0 m"
       "articles (live c1) = add_articles vs (articles (live c0))"
       "live c1 = (live c0)\<lparr>articles := articles (live c1)\<rparr>"
    by blast
  have f1: "articles_fts (live c1) = articles_fts (live c)"
    using arg_cong[OF v(4), of articles_fts] s(4) by simp
  from fts_rebuild_returns[OF r] have
    "articles (live c') = articles (live c1)"
    "articles_fts (live c') = articles_fts (live c1) @ map fts_of (articles (live c1))"
    "disk c' = live c'"
    by simp_all
  with v f1 s(3) show ?thesis by auto
qed

subsection \<open>The run\<close>

lemma truncate_fields:
  "a_created_at (article_values.truncate a) = a_created_at a"
  "a_published_at (article_values.truncate a) = a_published_at a"
  by (simp_all add: article_values.defs)

lemma timedelta_minutes_nonneg: "0 \<le> m \<Longrightarrow> 0 \<le> timedelta 0 0 m"
  by (simp add: timedelta_def)

lemma add_articles_offsets:
  assumes "\<forall>v\<in>set vs. \<exists>m. 1 \<le> m \<and> m \<le> 60 \<and> a_created_at v = a_published_at v + timedelta 0 0 m"
  shows "\<exists>new. add_articles vs rs = rs @ new \<and> length new = length vs
     \<and> (\<forall>a\<in>set new. (\<exists>m. 1 \<le> m \<and> m \<le> 60
            \<and> a_created_at a = a_published_at a + timedelta 0 0 m)
          \<and> a_published_at a \<le> a_created_at a)"
proof -
  from add_articles_new[of vs rs] obtain new where
    n: "add_articles vs rs = rs @ new" "map article_values.truncate new = vs"
    by blast
  have "(\<exists>m. 1 \<le> m \<and> m \<le> 60 \<and> a_created_at a = a_published_at a + timedelta 0 0 m)
          \<and> a_published_at a \<le> a_created_at a" if "a \<in> set new" for a
  proof -
    from that n(2) have "article_values.truncate a \<in> set vs" by auto
    with assms obtain m where m: "1 \<le> m" "m \<le> 60"
      "a_created_at (article_values.truncate a) = a_published_at (article_values.truncate a) + timedelta 0 0 m"
      by blast
    then have e: "a_created_at a = a_published_at a + timedelta 0 0 m"
      by (simp add: truncate_fields)
    moreover from m(1) have "0 \<le> timedelta 0 0 m" by (intro timedelta_minutes_nonneg) simp
    ultimately show ?thesis using m(1,2) by auto
  qed
  moreover from n(2) have "length new = length vs" by (metis length_map)
  ultimately show ?thesis using n(1) by blast
qed

lemma create_feeds_result:
  assumes "create_feeds n c tag_ids now g = (c', feed_ids, g')"
  shows "fold (create_feed tag_ids now) [0..<n] (live c, [], g) = (live c', feed_ids, g')"
    and "disk c' = live c'"
  using assms by (auto simp: create_feeds_def commit_def split: prod.splits)

lemma seed_fresh:
  "\<exists>c' g'. seed fresh now g = Inr (c', g')
     \<and> length (tags (live c')) = 49 \<and> length (feeds (live c')) = 1000
     \<and> length (articles (live c')) = 100000 \<and> length (articles_fts (live c')) = 100000
     \<and> (\<forall>a\<in>set (articles (live c')). a_published_at a \<le> a_created_at a)
     \<and> disk c' = live c'"
proof -
  from create_tags_fresh[of g] obtain c1 tag_ids g1 where
    t: "create_tags NUM_TAGS fresh g = Inr (c1, tag_ids, g1)"
       "map t_name (tags (live c1)) = TAG_NAMES"
       "live c1 = empty_tables\<lparr>tags := tags (live c1)\<rparr>"
    by blast
  from t(2) have nt: "length (tags (live c1)) = 49"
    using length_TAG_NAMES by (metis length_map)
  obtain c2 feed_ids g2 where f: "create_feeds NUM_FEEDS c1 tag_ids now g1 = (c2, feed_ids, g2)"
    by (cases "create_feeds NUM_FEEDS c1 tag_ids now g1")
  have ft: "feed_tags (live c1) = []" "articles (live c1) = []" "articles_fts (live c1) = []"
    "feeds (live c1) = []"
    using arg_cong[OF t(3), of feed_tags] arg_cong[OF t(3), of articles]
      arg_cong[OF t(3), of articles_fts] arg_cong[OF t(3), of feeds]
    by (simp_all add: empty_tables_def)
  have "(\<forall>p\<in>set (feed_tags (live c2)). fst p \<in> f_id ` set (feeds (live c2)) \<and> snd p \<in> UNIV)
     \<and> distinct (feed_tags (live c2))
     \<and> live c2 = (live c1)\<lparr>feeds := feeds (live c2), feed_tags := feed_tags (live c2)\<rparr>
     \<and> length feed_ids = length ([]::int list) + length [0..<NUM_FEEDS]
     \<and> length (feeds (live c2)) = length (feeds (live c1)) + length [0..<NUM_FEEDS]"
    by (rule feeds_loop_inv[OF _ _ _ create_feeds_result(1)[OF f]]) (simp_all add: ft)
  then have l2: "live c2 = (live c1)\<lparr>feeds := feeds (live c2), feed_tags := feed_tags (live c2)\<rparr>"
    and nf: "length feed_ids = 1000" "length (feeds (live c2)) = 1000"
    by (simp_all add: NUM_FEEDS_def ft)
  from nf(1) have ne: "feed_ids \<noteq> []" by auto
  have a2: "articles_fts (live c2) = []" "articles (live c2) = []" "tags (live c2) = tags (live c1)"
    using arg_cong[OF l2, of articles_fts] arg_cong[OF l2, of articles] arg_cong[OF l2, of tags] ft
    by simp_all
  from create_articles_ok[OF ne a2(1), of NUM_ARTICLES now g2] a2(2) obtain c3 g3 vs where
    a: "create_articles NUM_ARTICLES c2 feed_ids now g2 = Inr (c3, g3)"
       "length vs = NUM_ARTICLES"
       "\<forall>v\<in>set vs. \<exists>m. 1 \<le> m \<and> m \<le> 60 \<and> a_created_at v = a_published_at v + timedelta 0 0 m"
       "articles (live c3) = add_articles vs []"
       "articles_fts (live c3) = map fts_of (articles (live c3))"
       "live c3 = (live c2)\<lparr>articles := articles (live c3), articles_fts := articles_fts (live c3),
                           trg_insert := True, trg_delete := True, trg_update := True\<rparr>"
       "disk c3 = live c3"
    by auto
  have run: "seed fresh now g = Inr (c3, g3)"
    by (simp add: seed_def t(1) f a(1))
  have k: "length (articles (live c3)) = 100000"
    using a(2,4) by (simp add: length_add_articles NUM_ARTICLES_def)
  from add_articles_offsets[OF a(3), of "[]"] a(4)
  have off: "\<forall>a\<in>set (articles (live c3)). a_published_at a \<le> a_created_at a"
    by auto
  have "tags (live c3) = tags (live c1)" "feeds (live c3) = feeds (live c2)"
    using arg_cong[OF a(6), of tags] arg_cong[OF a(6), of feeds] a2(3) by simp_all
  with run nt nf(2) k a(5,7) off show ?thesis by auto
qed

subsection \<open>The feed tags of a run\<close>

lemma feeds_loop_frame:
  "fold (create_feed tag_ids now) is (t, ids, g) = (t', ids', g') \<Longrightarrow>
   t' = t\<lparr>feeds := feeds t', feed_tags := feed_tags t'\<rparr>"
proof (induction "is" arbitrary: t ids g)
  case Nil
  then show ?case by simp
next
  case (Cons i "is")
  from create_feed_step[of tag_ids now i t ids g] obtain row sel g1 where
    st: "create_feed tag_ids now i (t, ids, g)
       = (t\<lparr>feeds := feeds t @ [row],
            feed_tags := add_feed_tags (f_id row) sel (feed_tags t)\<rparr>, ids @ [f_id row], g1)"
    by blast
  define t1 where "t1 = t\<lparr>feeds := feeds t @ [row],
            feed_tags := add_feed_tags (f_id row) sel (feed_tags t)\<rparr>"
  have "fold (create_feed tag_ids now) is (t1, ids @ [f_id row], g1) = (t', ids', g')"
    using Cons.prems st by (simp add: t1_def)
  from Cons.IH[OF this] show ?case
    by (simp add: t1_def)
qed

lemma feeds_loop_ref:
  assumes "set tag_ids \<subseteq> T"
    and "\<forall>p\<in>set (feed_tags t). fst p \<in> f_id ` set (feeds t) \<and> snd p \<in> T"
    and "fold (create_feed tag_ids now) is (t, ids, g) = (t', ids', g')"
  shows "\<forall>p\<in>set (feed_tags t'). fst p \<in> f_id ` set (feeds t') \<and> snd p \<in> T"
  using assms(2-)
proof (induction "is" arbitrary: t ids g)
  case Nil
  then show ?case by simp
next
  case (Cons i "is")
  from create_feed_step[of tag_ids now i t ids g] obtain row sel g1 where
    st: "create_feed tag_ids now i (t, ids, g)
       = (t\<lparr>feeds := feeds t @ [row],
            feed_tags := add_feed_tags (f_id row) sel (feed_tags t)\<rparr>, ids @ [f_id row], g1)"
    and sel: "set sel \<subseteq> set tag_ids"
    by blast
  define t1 where "t1 = t\<lparr>feeds := feeds t @ [row],
            feed_tags := add_feed_tags (f_id row) sel (feed_tags t)\<rparr>"
  have a: "\<forall>p\<in>set (feed_tags t1). fst p \<in> f_id ` set (feeds t1) \<and> snd p \<in> T"
    using Cons.prems(1) sel assms(1) by (auto simp: t1_def set_add_feed_tags)
  have c: "fold (create_feed tag_ids now) is (t1, ids @ [f_id row], g1) = (t', ids', g')"
    using Cons.prems(2) st by (simp add: t1_def)
  from Cons.IH[OF a c] show ?case .
qed

lemma feeds_loop_distinct:
  assumes "distinct (feed_tags t)"
    and "fold (create_feed tag_ids now) is (t, ids, g) = (t', ids', g')"
  shows "distinct (feed_tags t')"
  using assms
proof (induction "is" arbitrary: t ids g)
  case Nil
  then show ?case by simp
next
  case (Cons i "is")
  from create_feed_step[of tag_ids now i t ids g] obtain row sel g1 where
    st: "create_feed tag_ids now i (t, ids, g)
       = (t\<lparr>feeds := feeds t @ [row],
            feed_tags := add_feed_tags (f_id row) sel (feed_tags t)\<rparr>, ids @ [f_id row], g1)"
    by blast
  define t1 where "t1 = t\<lparr>feeds := feeds t @ [row],
            feed_tags := add_feed_tags (f_id row) sel (feed_tags t)\<rparr>"
  have b: "distinct (feed_tags t1)"
    using Cons.prems(1) by (simp add: t1_def distinct_add_feed_tags)
  have c: "fold (create_feed tag_ids now) is (t1, ids @ [f_id row], g1) = (t', ids', g')"
    using Cons.prems(2) st by (simp add: t1_def)
  from Cons.IH[OF b c] show ?case .
qed

lemma create_feeds_props:
  assumes "create_feeds n c tag_ids now g = (c', feed_ids, g')"
  shows "length feed_ids = n"
    and "map f_id (feeds (live c')) = map f_id (feeds (live c)) @ feed_ids"
    and "tags (live c') = tags (live c)"
    and "feed_tags (live c')
           = foldl (\<lambda>tb (f, sel). add_feed_tags f sel tb) (feed_tags (live c))
               (zip feed_ids (samples tag_ids now [0..<n] g))"
    and "distinct tag_ids \<and> (\<forall>p\<in>set (feed_tags (live c)). fst p \<in> f_id ` set (feeds (live c)))
         \<longrightarrow> feed_tags (live c') = feed_tags (live c)
               @ concat (map2 (\<lambda>f sel. map (Pair f) sel) feed_ids (samples tag_ids now [0..<n] g))"
    and "set tag_ids \<subseteq> t_id ` set (tags (live c))
           \<and> (\<forall>p\<in>set (feed_tags (live c)).
                 fst p \<in> f_id ` set (feeds (live c)) \<and> snd p \<in> t_id ` set (tags (live c)))
         \<longrightarrow> (\<forall>p\<in>set (feed_tags (live c')).
                 fst p \<in> f_id ` set (feeds (live c')) \<and> snd p \<in> t_id ` set (tags (live c')))"
    and "distinct (feed_tags (live c)) \<longrightarrow> distinct (feed_tags (live c'))"
    and "disk c' = live c'"
proof -
  note run = create_feeds_result[OF assms]
  from feeds_loop_samples[OF run(1)] obtain new where
    n: "feed_ids = [] @ new" "length new = length [0..<n]"
       "map f_id (feeds (live c')) = map f_id (feeds (live c)) @ new"
       "feed_tags (live c') = foldl (\<lambda>tb (f, sel). add_feed_tags f sel tb) (feed_tags (live c))
                        (zip new (samples tag_ids now [0..<n] g))"
    by blast
  from n(1) have fn: "new = feed_ids" by simp
  from n(2) show "length feed_ids = n" unfolding fn by simp
  from n(3) show "map f_id (feeds (live c')) = map f_id (feeds (live c)) @ feed_ids"
    unfolding fn .
  from n(4) show "feed_tags (live c')
           = foldl (\<lambda>tb (f, sel). add_feed_tags f sel tb) (feed_tags (live c))
               (zip feed_ids (samples tag_ids now [0..<n] g))"
    unfolding fn .
  from feeds_loop_frame[OF run(1)]
  have fr: "live c' = (live c)\<lparr>feeds := feeds (live c'), feed_tags := feed_tags (live c')\<rparr>" .
  show tg: "tags (live c') = tags (live c)"
    using arg_cong[OF fr, of tags] by simp
  show "distinct tag_ids \<and> (\<forall>p\<in>set (feed_tags (live c)). fst p \<in> f_id ` set (feeds (live c)))
         \<longrightarrow> feed_tags (live c') = feed_tags (live c)
               @ concat (map2 (\<lambda>f sel. map (Pair f) sel) feed_ids (samples tag_ids now [0..<n] g))"
    using feeds_loop_sampled_rows[OF _ _ run(1)] by simp
  show "set tag_ids \<subseteq> t_id ` set (tags (live c))
           \<and> (\<forall>p\<in>set (feed_tags (live c)).
                 fst p \<in> f_id ` set (feeds (live c)) \<and> snd p \<in> t_id ` set (tags (live c)))
         \<longrightarrow> (\<forall>p\<in>set (feed_tags (live c')).
                 fst p \<in> f_id ` set (feeds (live c')) \<and> snd p \<in> t_id ` set (tags (live c')))"
    unfolding tg using feeds_loop_ref[OF _ _ run(1), of "t_id ` set (tags (live c))"] by blast
  show "distinct (feed_tags (live c)) \<longrightarrow> distinct (feed_tags (live c'))"
    using feeds_loop_distinct[OF _ run(1)] by blast
  show "disk c' = live c'" by (rule run(2))
qed

lemma create_tags_fresh_ids:
  "\<exists>c1 ids g1. create_tags NUM_TAGS fresh g0 = Inr (c1, ids, g1)
     \<and> distinct ids \<and> set ids \<subseteq> t_id ` set (tags (live c1))
     \<and> feed_tags (live c1) = [] \<and> feeds (live c1) = []"
proof -
  from create_tags_fresh[of g0] obtain c1 ids g1 where
    t: "create_tags NUM_TAGS fresh g0 = Inr (c1, ids, g1)"
       "live c1 = empty_tables\<lparr>tags := tags (live c1)\<rparr>"
    by blast
  have "feed_tags (live c1) = []" "feeds (live c1) = []"
    using arg_cong[OF t(2), of feed_tags] arg_cong[OF t(2), of feeds]
    by (simp_all add: empty_tables_def)
  with t(1) create_tags_ids[OF t(1)] show ?thesis by blast
qed

lemma seed_feed_tags:
  "\<exists>c1 ids g1 c2 fids g2.
       create_tags NUM_TAGS fresh g0 = Inr (c1, ids, g1)
     \<and> create_feeds NUM_FEEDS c1 ids now g1 = (c2, fids, g2)
     \<and> feed_tags (live c2)
         = concat (map2 (\<lambda>f sel. map (Pair f) sel) fids (samples ids now [0..<NUM_FEEDS] g1))
     \<and> (\<forall>p\<in>set (feed_tags (live c2)).
           fst p \<in> f_id ` set (feeds (live c2)) \<and> snd p \<in> t_id ` set (tags (live c2)))
     \<and> distinct (feed_tags (live c2))"
proof -
  from create_tags_fresh_ids[of g0] obtain c1 ids g1 where
    t: "create_tags NUM_TAGS fresh g0 = Inr (c1, ids, g1)" "distinct ids"
       "set ids \<subseteq> t_id ` set (tags (live c1))" "feed_tags (live c1) = []" "feeds (live c1) = []"
    by blast
  obtain c2 fids g2 where f: "create_feeds NUM_FEEDS c1 ids now g1 = (c2, fids, g2)"
    by (cases "create_feeds NUM_FEEDS c1 ids now g1")
  note p = create_feeds_props[OF f]
  from p(5) t(2,4) have "feed_tags (live c2)
         = concat (map2 (\<lambda>f sel. map (Pair f) sel) fids (samples ids now [0..<NUM_FEEDS] g1))"
    by simp
  moreover from p(6) t(3,4) have "\<forall>p\<in>set (feed_tags (live c2)).
           fst p \<in> f_id ` set (feeds (live c2)) \<and> snd p \<in> t_id ` set (tags (live c2))"
    by simp
  moreover from p(7) t(4) have "distinct (feed_tags (live c2))" by simp
  ultimately show ?thesis using t(1) f by blast
qed

subsection \<open>The number of tags\<close>

text \<open>
  C1: with the configured constants a run on an empty target inserts \<open>NUM_TAGS = 50\<close>
  tag rows and \<open>create_tags\<close> returns 50 identifiers. The vocabulary \<open>TAG_NAMES\<close> has
  49 names, so the slice \<^verbatim>\<open>TAG_NAMES[:NUM_TAGS]\<close> has 49: on the empty target
  \<open>create_tags\<close> returns 49 identifiers and leaves 49 rows, committed, and the whole run
  ends with 49 tag rows, for every behaviour of the random generator.
\<close>

theorem create_tags_count:
  "NUM_TAGS = 50 \<and> length TAG_NAMES = 49
   \<and> (\<exists>c' tag_ids g'. create_tags NUM_TAGS fresh g = Inr (c', tag_ids, g')
        \<and> length tag_ids = 49 \<and> length (tags (live c')) = 49 \<and> length (tags (disk c')) = 49)
   \<and> (\<exists>c' g'. seed fresh now g = Inr (c', g') \<and> length (tags (live c')) = 49)"
proof -
  from create_tags_fresh[of g] obtain c' tag_ids g' where
    t: "create_tags NUM_TAGS fresh g = Inr (c', tag_ids, g')" "length tag_ids = 49"
       "map t_name (tags (live c')) = TAG_NAMES" "disk c' = live c'"
    by blast
  from t(3) have "length (tags (live c')) = 49"
    using length_TAG_NAMES by (metis length_map)
  with t have "\<exists>c' tag_ids g'. create_tags NUM_TAGS fresh g = Inr (c', tag_ids, g')
        \<and> length tag_ids = 49 \<and> length (tags (live c')) = 49 \<and> length (tags (disk c')) = 49"
    by auto
  moreover from seed_fresh[of now g]
  have "\<exists>c' g'. seed fresh now g = Inr (c', g') \<and> length (tags (live c')) = 49"
    by blast
  ultimately show ?thesis
    by (simp add: NUM_TAGS_def length_TAG_NAMES)
qed

subsection \<open>The FTS mirror after the load\<close>

text \<open>
  C3: on a target whose FTS table is empty (the target of a run is new), with article ids
  that are distinct (they are the table's key) and a non-empty list of feeds,
  \<open>create_articles\<close> returns, and then the FTS table holds exactly the entries of the
  articles, in the same order: one entry per article, under the article's id, with the
  article's title, content, summary and author; the two tables have the same number of
  rows and \<open>fts_of\<close> is a bijection between them. The three triggers exist again and
  everything is committed. The run on an empty target ends with 100000 rows in each.
\<close>

theorem fts_mirror_after_load:
  assumes "feed_ids \<noteq> []" "articles_fts (live c) = []" "distinct (map a_id (articles (live c)))"
  shows "\<exists>c' g'. create_articles k c feed_ids now g = Inr (c', g')
     \<and> articles_fts (live c') = map fts_of (articles (live c'))
     \<and> length (articles_fts (live c')) = length (articles (live c'))
     \<and> map fts_rowid (articles_fts (live c')) = map a_id (articles (live c'))
     \<and> map fts_article_id (articles_fts (live c')) = map a_id (articles (live c'))
     \<and> map fts_title (articles_fts (live c')) = map a_title (articles (live c'))
     \<and> map fts_content (articles_fts (live c')) = map a_content (articles (live c'))
     \<and> map fts_summary (articles_fts (live c')) = map a_summary (articles (live c'))
     \<and> map fts_author (articles_fts (live c')) = map a_author (articles (live c'))
     \<and> distinct (map fts_rowid (articles_fts (live c')))
     \<and> bij_betw fts_of (set (articles (live c'))) (set (articles_fts (live c')))
     \<and> trg_insert (live c') \<and> trg_update (live c') \<and> trg_delete (live c')
     \<and> disk c' = live c'
     \<and> (\<exists>c'' g''. seed fresh now g = Inr (c'', g'')
          \<and> length (articles_fts (live c'')) = 100000 \<and> length (articles (live c'')) = 100000)"
proof -
  from seed_fresh[of now g]
  have full: "\<exists>c'' g''. seed fresh now g = Inr (c'', g'')
          \<and> length (articles_fts (live c'')) = 100000 \<and> length (articles (live c'')) = 100000"
    by blast
  from create_articles_ok[OF assms, of k now g] obtain c' g' where
    r: "create_articles k c feed_ids now g = Inr (c', g')"
       "articles_fts (live c') = map fts_of (articles (live c'))"
       "distinct (map a_id (articles (live c')))"
       "live c' = (live c)\<lparr>articles := articles (live c'), articles_fts := articles_fts (live c'),
                           trg_insert := True, trg_delete := True, trg_update := True\<rparr>"
       "disk c' = live c'"
    by blast
  have trg: "trg_insert (live c')" "trg_update (live c')" "trg_delete (live c')"
    using arg_cong[OF r(4), of trg_insert] arg_cong[OF r(4), of trg_update]
      arg_cong[OF r(4), of trg_delete] by simp_all
  have inj: "inj_on fts_of (set (articles (live c')))"
  proof (rule inj_onI)
    fix a b assume ab: "a \<in> set (articles (live c'))" "b \<in> set (articles (live c'))" "fts_of a = fts_of b"
    from ab(3) have "a_id a = a_id b" by (simp add: fts_of_def)
    with r(3) ab(1,2) show "a = b" by (meson distinct_map inj_onD)
  qed
  have bij: "bij_betw fts_of (set (articles (live c'))) (set (articles_fts (live c')))"
    unfolding r(2) using inj by (simp add: bij_betw_def)
  have cols: "map fts_rowid (articles_fts (live c')) = map a_id (articles (live c'))"
    "map fts_article_id (articles_fts (live c')) = map a_id (articles (live c'))"
    "map fts_title (articles_fts (live c')) = map a_title (articles (live c'))"
    "map fts_content (articles_fts (live c')) = map a_content (articles (live c'))"
    "map fts_summary (articles_fts (live c')) = map a_summary (articles (live c'))"
    "map fts_author (articles_fts (live c')) = map a_author (articles (live c'))"
    unfolding r(2) by (simp_all add: fts_of_def)
  have len: "length (articles_fts (live c')) = length (articles (live c'))"
    unfolding r(2) by simp
  have dist: "distinct (map fts_rowid (articles_fts (live c')))"
    unfolding cols(1) by (rule r(3))
  from r(1,2) len cols dist bij trg r(5) full show ?thesis by blast
qed

theorem fts_mirror_after_load_witness:
  "[1::int] \<noteq> [] \<and> articles_fts (live fresh) = [] \<and> distinct (map a_id (articles (live fresh)))
   \<and> (\<exists>c' g'. create_articles 2 fresh [1] 0 (id, 0) = Inr (c', g')
         \<and> length (articles_fts (live c')) = length (articles (live c')))"
proof -
  have h: "[1::int] \<noteq> []" "articles_fts (live fresh) = []" "distinct (map a_id (articles (live fresh)))"
    by (simp_all add: fresh_def empty_tables_def)
  from fts_mirror_after_load[OF h, of 2 0 "(id, 0)"] h show ?thesis by blast
qed

subsection \<open>The number of articles\<close>

text \<open>
  C6: for every article count \<open>k\<close> and every non-empty list of feeds, the load inserts
  exactly \<open>k\<close> article rows. After \<open>j\<close> iterations of the loop the store has received
  the full batches of \<open>batch_size = 1000\<close> tuples, all committed, and the buffer holds
  the remaining \<open>j mod 1000\<close>; the insert after the loop flushes the buffer and commits,
  so the load ends with \<open>k\<close> more rows, committed; \<open>create_articles\<close>, when it
  returns, leaves that number; the run on an empty target ends with \<open>NUM_ARTICLES\<close> rows.
\<close>

theorem create_articles_count:
  assumes "feed_ids \<noteq> []"
  shows "batch_size = 1000
   \<and> (\<forall>j. \<exists>c1 batch g1.
         articles_loop feed_ids now [0..<j] (commit (c\<lparr>live := fts_suspend (live c)\<rparr>), [], g)
           = Inr (c1, batch, g1)
       \<and> length batch = j mod batch_size
       \<and> length (articles (live c1)) = length (articles (live c)) + (j div batch_size) * batch_size
       \<and> disk c1 = live c1)
   \<and> (\<exists>c2 g2. load_articles k (commit (c\<lparr>live := fts_suspend (live c)\<rparr>)) feed_ids now g = Inr (c2, g2)
       \<and> length (articles (live c2)) = length (articles (live c)) + k
       \<and> disk c2 = live c2)
   \<and> (\<forall>c' g'. create_articles k c feed_ids now g = Inr (c', g') \<longrightarrow>
         length (articles (live c')) = length (articles (live c)) + k
       \<and> length (articles (disk c')) = length (articles (live c)) + k)
   \<and> (\<exists>c' g'. seed fresh now g = Inr (c', g') \<and> length (articles (live c')) = NUM_ARTICLES)"
proof -
  define c0 where "c0 = commit (c\<lparr>live := fts_suspend (live c)\<rparr>)"
  note s = suspended[of c, folded c0_def]
  have b0: "length ([]::article_values list) < batch_size" by (simp add: batch_size_def)
  have loop: "\<exists>c1 batch g1.
         articles_loop feed_ids now [0..<j] (c0, [], g) = Inr (c1, batch, g1)
       \<and> length batch = j mod batch_size
       \<and> length (articles (live c1)) = length (articles (live c)) + (j div batch_size) * batch_size
       \<and> disk c1 = live c1" for j
    using articles_loop_ok[OF assms s(1) b0 s(2), of now "[0..<j]" g] s(3) by auto
  from load_articles_ok[OF assms s(1,2), of k now g]
  have load: "\<exists>c2 g2. load_articles k c0 feed_ids now g = Inr (c2, g2)
       \<and> length (articles (live c2)) = length (articles (live c)) + k
       \<and> disk c2 = live c2"
    using s(3) by (auto simp: length_add_articles)
  have ret: "length (articles (live c')) = length (articles (live c)) + k
       \<and> length (articles (disk c')) = length (articles (live c)) + k"
    if "create_articles k c feed_ids now g = Inr (c', g')" for c' g'
    using create_articles_returns[OF that] by (auto simp: length_add_articles)
  from seed_fresh[of now g]
  have "\<exists>c' g'. seed fresh now g = Inr (c', g') \<and> length (articles (live c')) = NUM_ARTICLES"
    unfolding NUM_ARTICLES_def by blast
  with loop load ret show ?thesis
    unfolding c0_def by (simp add: batch_size_def)
qed

theorem create_articles_count_witness:
  "[1::int] \<noteq> []
   \<and> (\<exists>c2 g2. load_articles 1001 (commit (fresh\<lparr>live := fts_suspend (live fresh)\<rparr>)) [1] 0 (id, 0)
          = Inr (c2, g2)
        \<and> length (articles (live c2)) = 1001)"
proof -
  have h: "[1::int] \<noteq> []" by simp
  from create_articles_count[OF h, of 0 fresh "(id, 0)" 1001]
  have "\<exists>c2 g2. load_articles 1001 (commit (fresh\<lparr>live := fts_suspend (live fresh)\<rparr>)) [1] 0 (id, 0)
          = Inr (c2, g2)
        \<and> length (articles (live c2)) = length (articles (live fresh)) + 1001"
    by blast
  then show ?thesis
    by (simp add: fresh_def empty_tables_def)
qed

subsection \<open>The rebuild, run again\<close>

text \<open>
  C7: when every article already has its entry in the FTS table and the three triggers
  exist, running the rebuild step (the bulk statement and the re-creation of the triggers)
  again does not change the store: with no article it returns and leaves the tables and
  the triggers as they were; with at least one article the bulk statement hits the key of
  an existing entry and the step ends in \<open>IntegrityError\<close>, the connection being
  as before.
\<close>

theorem fts_rebuild_again:
  assumes "a_id ` set (articles (live c)) \<subseteq> fts_rowid ` set (articles_fts (live c))"
    and "trg_insert (live c)" "trg_update (live c)" "trg_delete (live c)"
  shows "(articles (live c) \<noteq> [] \<and> fts_rebuild c = (c, Some IntegrityError))
       \<or> (articles (live c) = []
           \<and> (\<exists>c'. fts_rebuild c = (c', None) \<and> live c' = live c \<and> disk c' = live c))"
proof -
  from assms(2-4) have "fts_create_triggers (live c) = live c"
    by (simp add: fts_create_triggers_def)
  with fts_rebuild_populated[OF assms(1)] show ?thesis by auto
qed

theorem fts_rebuild_again_witness:
  "a_id ` set (articles (live small_conn)) \<subseteq> fts_rowid ` set (articles_fts (live small_conn))
   \<and> articles_fts (live small_conn) = map fts_of (articles (live small_conn))
   \<and> trg_insert (live small_conn) \<and> trg_update (live small_conn) \<and> trg_delete (live small_conn)
   \<and> fts_rebuild small_conn = (small_conn, Some IntegrityError)"
proof -
  have h: "a_id ` set (articles (live small_conn)) \<subseteq> fts_rowid ` set (articles_fts (live small_conn))"
    "trg_insert (live small_conn)" "trg_update (live small_conn)" "trg_delete (live small_conn)"
    by (simp_all add: small_conn_def small_tables_def)
  have m: "articles_fts (live small_conn) = map fts_of (articles (live small_conn))"
    by (simp add: small_conn_def small_tables_def fts_of_def)
  have ne: "articles (live small_conn) \<noteq> []"
    by (simp add: small_conn_def small_tables_def)
  from fts_rebuild_again[OF h] ne
  have "fts_rebuild small_conn = (small_conn, Some IntegrityError)" by blast
  with h m show ?thesis by (intro conjI)
qed

subsection \<open>The two timestamps of an article\<close>

text \<open>
  C8: when \<open>create_articles\<close> returns, the rows it has added to \<open>articles\<close> (the old
  rows are untouched) each have \<open>created_at\<close> equal to \<open>published_at\<close> plus a whole
  number of minutes between 1 and 60, so \<open>created_at \<ge> published_at\<close>; after the run
  on an empty target this holds for every row of the table.
\<close>

theorem created_after_published:
  assumes "create_articles k c feed_ids now g = Inr (c', g')"
  shows "(\<exists>new. articles (live c') = articles (live c) @ new \<and> length new = k
        \<and> (\<forall>a\<in>set new. (\<exists>m. 1 \<le> m \<and> m \<le> 60
               \<and> a_created_at a = a_published_at a + timedelta 0 0 m)
             \<and> a_published_at a \<le> a_created_at a))
     \<and> (\<exists>c'' g''. seed fresh now g = Inr (c'', g'')
          \<and> (\<forall>a\<in>set (articles (live c'')). a_published_at a \<le> a_created_at a))"
proof -
  from create_articles_returns[OF assms] obtain vs where
    v: "length vs = k"
       "\<forall>v\<in>set vs. \<exists>m. 1 \<le> m \<and> m \<le> 60 \<and> a_created_at v = a_published_at v + timedelta 0 0 m"
       "articles (live c') = add_articles vs (articles (live c))"
    by blast
  from add_articles_offsets[OF v(2), of "articles (live c)"] v(1,3)
  have "\<exists>new. articles (live c') = articles (live c) @ new \<and> length new = k
        \<and> (\<forall>a\<in>set new. (\<exists>m. 1 \<le> m \<and> m \<le> 60
               \<and> a_created_at a = a_published_at a + timedelta 0 0 m)
             \<and> a_published_at a \<le> a_created_at a)"
    by auto
  moreover from seed_fresh[of now g]
  have "\<exists>c'' g''. seed fresh now g = Inr (c'', g'')
          \<and> (\<forall>a\<in>set (articles (live c'')). a_published_at a \<le> a_created_at a)"
    by blast
  ultimately show ?thesis by (rule conjI)
qed

theorem created_after_published_witness:
  "\<exists>c' g'. create_articles 2 (small_conn\<lparr>live := (live small_conn)\<lparr>articles_fts := []\<rparr>\<rparr>) [1] 0 (id, 0)
       = Inr (c', g')
     \<and> (\<exists>new. articles (live c') = articles (live small_conn) @ new \<and> length new = 2)"
proof -
  have "[1::int] \<noteq> []" "articles_fts (live (small_conn\<lparr>live := (live small_conn)\<lparr>articles_fts := []\<rparr>\<rparr>)) = []"
    "distinct (map a_id (articles (live (small_conn\<lparr>live := (live small_conn)\<lparr>articles_fts := []\<rparr>\<rparr>))))"
    by (simp_all add: small_conn_def small_tables_def)
  from create_articles_ok[OF this, of 2 0 "(id, 0)"] obtain c' g' where
    run: "create_articles 2 (small_conn\<lparr>live := (live small_conn)\<lparr>articles_fts := []\<rparr>\<rparr>) [1] 0 (id, 0)
       = Inr (c', g')"
    by blast
  from created_after_published[OF run]
  have "\<exists>new. articles (live c') = articles (live small_conn) @ new \<and> length new = 2"
    by auto
  with run show ?thesis by blast
qed

subsection \<open>The tags of the feeds\<close>

text \<open>
  C9: \<open>create_feeds\<close> has no failing branch and returns one identifier per feed, the
  identifiers of the rows it has added to \<open>feeds\<close>. For each feed it selects tags
  (\<open>samples\<close> lists the selections of the run, feed by feed): at most 5, all from the
  given list, and distinct when the identifiers of the list are distinct. The identifiers
  that \<open>create_tags\<close> returns are distinct and are identifiers of existing tags; with
  them, on a table whose rows reference existing feeds and tags, every selection is
  distinct, the table gains exactly one row per selected tag, and its rows reference
  existing feeds and tags afterwards. For every list of identifiers, \<open>feed_tags\<close>
  afterwards is the table before, after one \<^verbatim>\<open>INSERT OR IGNORE\<close> of the pair of the
  feed with each selected tag, in order (\<open>add_feed_tags\<close> skips a pair that is
  present, and the run goes on); rows that were distinct before are distinct afterwards.
  Everything is committed. In the run on an empty target (\<^verbatim>\<open>main\<close> removes the
  database file first) \<open>feed_tags\<close> ends with exactly one row per selected tag, distinct
  rows that reference existing feeds and tags.
\<close>

theorem create_feeds_feed_tags:
  assumes "create_feeds n c tag_ids now g = (c', feed_ids, g')"
  shows "length feed_ids = n \<and> length (samples tag_ids now [0..<n] g) = n
     \<and> map f_id (feeds (live c')) = map f_id (feeds (live c)) @ feed_ids
     \<and> (\<forall>sel\<in>set (samples tag_ids now [0..<n] g).
           length sel \<le> 5 \<and> length sel \<le> length tag_ids \<and> set sel \<subseteq> set tag_ids
           \<and> (distinct tag_ids \<longrightarrow> distinct sel))
     \<and> (\<forall>k c0 g0. create_tags k c0 g0 = Inr (c, tag_ids, g)
           \<longrightarrow> distinct tag_ids \<and> set tag_ids \<subseteq> t_id ` set (tags (live c))
             \<and> ((\<forall>p\<in>set (feed_tags (live c)).
                     fst p \<in> f_id ` set (feeds (live c)) \<and> snd p \<in> t_id ` set (tags (live c)))
                  \<longrightarrow> (\<forall>sel\<in>set (samples tag_ids now [0..<n] g). distinct sel)
                    \<and> feed_tags (live c') = feed_tags (live c)
                          @ concat (map2 (\<lambda>f sel. map (Pair f) sel) feed_ids
                                      (samples tag_ids now [0..<n] g))
                    \<and> (\<forall>p\<in>set (feed_tags (live c')).
                           fst p \<in> f_id ` set (feeds (live c'))
                           \<and> snd p \<in> t_id ` set (tags (live c')))))
     \<and> feed_tags (live c')
          = foldl (\<lambda>tb (f, sel). add_feed_tags f sel tb) (feed_tags (live c))
              (zip feed_ids (samples tag_ids now [0..<n] g))
     \<and> (distinct tag_ids \<and> (\<forall>p\<in>set (feed_tags (live c)). fst p \<in> f_id ` set (feeds (live c)))
          \<longrightarrow> feed_tags (live c') = feed_tags (live c)
                @ concat (map2 (\<lambda>f sel. map (Pair f) sel) feed_ids (samples tag_ids now [0..<n] g)))
     \<and> (set tag_ids \<subseteq> t_id ` set (tags (live c))
           \<and> (\<forall>p\<in>set (feed_tags (live c)).
                 fst p \<in> f_id ` set (feeds (live c)) \<and> snd p \<in> t_id ` set (tags (live c)))
          \<longrightarrow> (\<forall>p\<in>set (feed_tags (live c')).
                 fst p \<in> f_id ` set (feeds (live c')) \<and> snd p \<in> t_id ` set (tags (live c'))))
     \<and> (distinct (feed_tags (live c)) \<longrightarrow> distinct (feed_tags (live c')))
     \<and> disk c' = live c'
     \<and> (\<exists>c1 ids g1 c2 fids g2.
           create_tags NUM_TAGS fresh g0 = Inr (c1, ids, g1)
         \<and> create_feeds NUM_FEEDS c1 ids now g1 = (c2, fids, g2)
         \<and> feed_tags (live c2)
             = concat (map2 (\<lambda>f sel. map (Pair f) sel) fids (samples ids now [0..<NUM_FEEDS] g1))
         \<and> (\<forall>p\<in>set (feed_tags (live c2)).
               fst p \<in> f_id ` set (feeds (live c2)) \<and> snd p \<in> t_id ` set (tags (live c2)))
         \<and> distinct (feed_tags (live c2)))"
proof -
  note p = create_feeds_props[OF assms]
  have s: "length (samples tag_ids now [0..<n] g) = n"
    "\<forall>sel\<in>set (samples tag_ids now [0..<n] g).
           length sel \<le> 5 \<and> length sel \<le> length tag_ids \<and> set sel \<subseteq> set tag_ids
           \<and> (distinct tag_ids \<longrightarrow> distinct sel)"
    using samples_props[of tag_ids now "[0..<n]" g] by simp_all
  have t: "\<forall>k c0 g0. create_tags k c0 g0 = Inr (c, tag_ids, g)
           \<longrightarrow> distinct tag_ids \<and> set tag_ids \<subseteq> t_id ` set (tags (live c))
             \<and> ((\<forall>p\<in>set (feed_tags (live c)).
                     fst p \<in> f_id ` set (feeds (live c)) \<and> snd p \<in> t_id ` set (tags (live c)))
                  \<longrightarrow> (\<forall>sel\<in>set (samples tag_ids now [0..<n] g). distinct sel)
                    \<and> feed_tags (live c') = feed_tags (live c)
                          @ concat (map2 (\<lambda>f sel. map (Pair f) sel) feed_ids
                                      (samples tag_ids now [0..<n] g))
                    \<and> (\<forall>p\<in>set (feed_tags (live c')).
                           fst p \<in> f_id ` set (feeds (live c'))
                           \<and> snd p \<in> t_id ` set (tags (live c'))))"
  proof (intro allI impI)
    fix k c0 g0
    assume "create_tags k c0 g0 = Inr (c, tag_ids, g)"
    from create_tags_ids[OF this]
    have d: "distinct tag_ids" and e: "set tag_ids \<subseteq> t_id ` set (tags (live c))"
      by simp_all
    have "(\<forall>sel\<in>set (samples tag_ids now [0..<n] g). distinct sel)
        \<and> feed_tags (live c') = feed_tags (live c)
              @ concat (map2 (\<lambda>f sel. map (Pair f) sel) feed_ids (samples tag_ids now [0..<n] g))
        \<and> (\<forall>p\<in>set (feed_tags (live c')).
               fst p \<in> f_id ` set (feeds (live c')) \<and> snd p \<in> t_id ` set (tags (live c')))"
      if pre: "\<forall>p\<in>set (feed_tags (live c)).
                 fst p \<in> f_id ` set (feeds (live c)) \<and> snd p \<in> t_id ` set (tags (live c))"
    proof (intro conjI)
      from s(2) d show "\<forall>sel\<in>set (samples tag_ids now [0..<n] g). distinct sel"
        by blast
      from pre have "\<forall>p\<in>set (feed_tags (live c)). fst p \<in> f_id ` set (feeds (live c))"
        by blast
      with p(5) d show "feed_tags (live c') = feed_tags (live c)
              @ concat (map2 (\<lambda>f sel. map (Pair f) sel) feed_ids (samples tag_ids now [0..<n] g))"
        by blast
      from p(6) e pre show "\<forall>p\<in>set (feed_tags (live c')).
               fst p \<in> f_id ` set (feeds (live c')) \<and> snd p \<in> t_id ` set (tags (live c'))"
        by blast
    qed
    with d e show "distinct tag_ids \<and> set tag_ids \<subseteq> t_id ` set (tags (live c))
             \<and> ((\<forall>p\<in>set (feed_tags (live c)).
                     fst p \<in> f_id ` set (feeds (live c)) \<and> snd p \<in> t_id ` set (tags (live c)))
                  \<longrightarrow> (\<forall>sel\<in>set (samples tag_ids now [0..<n] g). distinct sel)
                    \<and> feed_tags (live c') = feed_tags (live c)
                          @ concat (map2 (\<lambda>f sel. map (Pair f) sel) feed_ids
                                      (samples tag_ids now [0..<n] g))
                    \<and> (\<forall>p\<in>set (feed_tags (live c')).
                           fst p \<in> f_id ` set (feeds (live c'))
                           \<and> snd p \<in> t_id ` set (tags (live c'))))"
      by blast
  qed
  show ?thesis
    by (intro conjI p(1) s(1) p(2) s(2) t p(4) p(5) p(6) p(7) p(8) seed_feed_tags)
qed

theorem create_feeds_feed_tags_witness:
  "(\<exists>c g. create_tags 1 fresh (\<lambda>_. 3, 0) = Inr (c, [1], g)
       \<and> distinct [1::int] \<and> set [1] \<subseteq> t_id ` set (tags (live c))
       \<and> feeds (live c) = [] \<and> feed_tags (live c) = []
       \<and> (\<exists>c' g'. create_feeds 2 c [1] 0 g = (c', [1, 2], g')
             \<and> samples [1] 0 [0..<2] g = [[1], [1]]
             \<and> map f_id (feeds (live c')) = [1, 2]
             \<and> feed_tags (live c') = [(1, 1), (2, 1)]))
   \<and> samples [1, 1] 0 [0..<1] (\<lambda>_. 2, 0) = [[1, 1]]
   \<and> feed_tags (live (fst (create_feeds 1 fresh [1, 1] 0 (\<lambda>_. 2, 0)))) = [(1, 1)]"
proof -
  let ?t = "\<lparr>tags = [\<lparr>t_id = 1, t_name = ''tech'', t_color = ''#F59E0B'', t_style = ''solid''\<rparr>],
             feeds = [], feed_tags = [], articles = [], articles_fts = [],
             trg_insert = True, trg_update = True, trg_delete = True\<rparr>"
  let ?c = "\<lparr>live = ?t, disk = ?t\<rparr>"
  let ?g = "(\<lambda>_::nat. 3::nat, 2::nat)"
  let ?r = "create_feeds 2 ?c [1] 0 ?g"
  have ct: "create_tags 1 fresh (\<lambda>_. 3, 0) = Inr (?c, [1], ?g)"
    by (simp add: create_tags_def TAG_NAMES_def COLORS_def STYLES_def pick_def draw_def
          insert_tag_def next_id_def fresh_def empty_tables_def commit_def)
  have run: "?r = (fst ?r, fst (snd ?r), snd (snd ?r))"
    by simp
  have ids: "fst (snd ?r) = [1, 2]"
    by code_simp
  have sm: "samples [1] 0 [0..<2] ?g = [[1], [1]]"
    by code_simp
  have before: "feeds (live ?c) = []" "feed_tags (live ?c) = []"
    by simp_all
  have pre: "\<forall>p\<in>set (feed_tags (live ?c)).
      fst p \<in> f_id ` set (feeds (live ?c)) \<and> snd p \<in> t_id ` set (tags (live ?c))"
    by simp
  from create_feeds_feed_tags[OF run]
  have tg: "\<forall>k c0 g0. create_tags k c0 g0 = Inr (?c, [1], ?g)
           \<longrightarrow> distinct [1::int] \<and> set [1] \<subseteq> t_id ` set (tags (live ?c))
             \<and> ((\<forall>p\<in>set (feed_tags (live ?c)).
                     fst p \<in> f_id ` set (feeds (live ?c)) \<and> snd p \<in> t_id ` set (tags (live ?c)))
                  \<longrightarrow> (\<forall>sel\<in>set (samples [1] 0 [0..<2] ?g). distinct sel)
                    \<and> feed_tags (live (fst ?r)) = feed_tags (live ?c)
                          @ concat (map2 (\<lambda>f sel. map (Pair f) sel) (fst (snd ?r))
                                      (samples [1] 0 [0..<2] ?g))
                    \<and> (\<forall>p\<in>set (feed_tags (live (fst ?r))).
                           fst p \<in> f_id ` set (feeds (live (fst ?r)))
                           \<and> snd p \<in> t_id ` set (tags (live (fst ?r)))))"
    by (rule conjunct2[THEN conjunct2, THEN conjunct2, THEN conjunct2, THEN conjunct1])
  from create_feeds_feed_tags[OF run]
  have fs: "map f_id (feeds (live (fst ?r))) = map f_id (feeds (live ?c)) @ fst (snd ?r)"
    by (rule conjunct2[THEN conjunct2, THEN conjunct1])
  note of_tags = tg[rule_format, OF ct]
  have h: "distinct [1::int]" "set [1] \<subseteq> t_id ` set (tags (live ?c))"
    by (rule of_tags[THEN conjunct1], rule of_tags[THEN conjunct2, THEN conjunct1])
  note rows = of_tags[THEN conjunct2, THEN conjunct2, THEN mp, OF pre]
  have "feed_tags (live (fst ?r)) = feed_tags (live ?c)
                @ concat (map2 (\<lambda>f sel. map (Pair f) sel) (fst (snd ?r)) (samples [1] 0 [0..<2] ?g))"
    by (rule rows[THEN conjunct2, THEN conjunct1])
  then have ft: "feed_tags (live (fst ?r)) = [(1, 1), (2, 1)]"
    unfolding ids sm by simp
  from fs have ff: "map f_id (feeds (live (fst ?r))) = [1, 2]"
    unfolding ids by simp
  from run ids have run': "?r = (fst ?r, [1, 2], snd (snd ?r))"
    by simp
  from run' sm ff ft have inner: "\<exists>c' g'. create_feeds 2 ?c [1] 0 ?g = (c', [1, 2], g')
             \<and> samples [1] 0 [0..<2] ?g = [[1], [1]]
             \<and> map f_id (feeds (live c')) = [1, 2]
             \<and> feed_tags (live c') = [(1, 1), (2, 1)]"
    by (intro exI conjI)
  define P where "P = (\<lambda>c g. create_tags 1 fresh (\<lambda>_. 3, 0) = Inr (c, [1], g)
       \<and> distinct [1::int] \<and> set [1] \<subseteq> t_id ` set (tags (live c))
       \<and> feeds (live c) = [] \<and> feed_tags (live c) = []
       \<and> (\<exists>c' g'. create_feeds 2 c [1] 0 g = (c', [1, 2], g')
             \<and> samples [1] 0 [0..<2] g = [[1], [1]]
             \<and> map f_id (feeds (live c')) = [1, 2]
             \<and> feed_tags (live c') = [(1, 1), (2, 1)]))"
  from ct h before inner have "P ?c ?g"
    unfolding P_def by (intro conjI)
  then have "\<exists>c g. P c g"
    by blast
  then have "\<exists>c g. create_tags 1 fresh (\<lambda>_. 3, 0) = Inr (c, [1], g)
       \<and> distinct [1::int] \<and> set [1] \<subseteq> t_id ` set (tags (live c))
       \<and> feeds (live c) = [] \<and> feed_tags (live c) = []
       \<and> (\<exists>c' g'. create_feeds 2 c [1] 0 g = (c', [1, 2], g')
             \<and> samples [1] 0 [0..<2] g = [[1], [1]]
             \<and> map f_id (feeds (live c')) = [1, 2]
             \<and> feed_tags (live c') = [(1, 1), (2, 1)])"
    unfolding P_def .
  moreover have "samples [1, 1] 0 [0..<1] (\<lambda>_. 2, 0) = [[1, 1]]"
    by code_simp
  moreover have "feed_tags (live (fst (create_feeds 1 fresh [1, 1] 0 (\<lambda>_. 2, 0)))) = [(1, 1)]"
    by code_simp
  ultimately show ?thesis by (intro conjI)
qed


end
